theory Spec2Isabelle
  imports Main "HOL-Library.Word"
begin

section \<open>Errors\<close>

text \<open>
  The outcomes of a call that does not return a value. \<open>InvalidDate\<close> is the exception thrown
  by \<open>Date::Date(Year, Month, Day)\<close>. The other two are undefined behaviour of C++ that the
  source can reach in a single thread: locking a \<open>std::mutex\<close> that the calling thread
  already owns, and reading the array of \<open>Date::lastDayOfMonth\<close> out of range.
\<close>

datatype error = InvalidDate | RelockOwnedMutex | IndexOutOfRange

section \<open>The calendar types of \<open>std::chrono\<close> used by Date.h\<close>

text \<open>
  \<open>Year\<close>, \<open>Month\<close> and \<open>Day\<close> are \<open>std::chrono::year\<close>, \<open>month\<close> and \<open>day\<close>: a
  \<open>short\<close> and two \<open>unsigned char\<close>. \<open>Years\<close>, \<open>Months\<close> and \<open>Days\<close> are durations
  counted by a signed integer. Their operations are those of the C++20 standard library
  ([time.cal]); they are not code of the repository and are written here as the standard
  specifies them.
\<close>

type_synonym Year = "16 word"
type_synonym Month = "8 word"
type_synonym Day = "8 word"
type_synonym Years = int
type_synonym Months = int
type_synonym Days = int

record year_month_day =
  ymd_year :: Year
  ymd_month :: Month
  ymd_day :: Day

text \<open>\<open>year::ok\<close>: the value lies in \<open>[year::min(), year::max()] = [-32767, 32767]\<close>.\<close>

definition year_ok :: "Year \<Rightarrow> bool" where
  "year_ok y = (- 32767 \<le> sint y \<and> sint y \<le> 32767)"

text \<open>\<open>year::is_leap\<close>: \<open>y % 4 == 0 && (y % 100 != 0 || y % 400 == 0)\<close>. A remainder is zero
  under C++'s truncating \<open>%\<close> exactly when it is zero under \<open>mod\<close>.\<close>

definition is_leap :: "Year \<Rightarrow> bool" where
  "is_leap y = (sint y mod 4 = 0 \<and> (sint y mod 100 \<noteq> 0 \<or> sint y mod 400 = 0))"

definition month_ok :: "Month \<Rightarrow> bool" where
  "month_ok m = (1 \<le> unat m \<and> unat m \<le> 12)"

definition day_ok :: "Day \<Rightarrow> bool" where
  "day_ok d = (1 \<le> unat d \<and> unat d \<le> 31)"

text \<open>\<open>year_month_day_last::day\<close>, the last day of a month of a year (for an \<open>ok\<close> month).\<close>

definition last_day :: "Year \<Rightarrow> Month \<Rightarrow> nat" where
  "last_day y m =
     (if unat m = 2 then (if is_leap y then 29 else 28)
      else [31, 28, 31, 30, 31, 30, 31, 31, 30, 31, 30, 31] ! (unat m - 1))"

text \<open>\<open>year_month_day::ok\<close>: year and month are \<open>ok\<close> and the day lies in
  \<open>[1, (y/m/last).day()]\<close>.\<close>

definition ymd_ok :: "year_month_day \<Rightarrow> bool" where
  "ymd_ok v = (year_ok (ymd_year v) \<and> month_ok (ymd_month v) \<and>
               1 \<le> unat (ymd_day v) \<and> unat (ymd_day v) \<le> last_day (ymd_year v) (ymd_month v))"

text \<open>
  \<open>sys_days(ymd).time_since_epoch().count()\<close>: the number of days from 1970-01-01 to the
  date in the proleptic Gregorian calendar. \<open>days_before_year y\<close> counts the days from
  0001-01-01 to the first of January of year \<open>y\<close>, \<open>days_before_month\<close> the days of the
  year before the first of the month. For a date that is not \<open>ok\<close> but has an \<open>ok\<close> year and
  month the standard gives \<open>sys_days(y/m/1) + (d - 1)\<close>, which is the same formula.
\<close>

definition leap_year :: "int \<Rightarrow> bool" where
  "leap_year y = (y mod 4 = 0 \<and> (y mod 100 \<noteq> 0 \<or> y mod 400 = 0))"

definition days_before_year :: "int \<Rightarrow> int" where
  "days_before_year y = 365 * (y - 1) + (y - 1) div 4 - (y - 1) div 100 + (y - 1) div 400"

definition days_before_month :: "int \<Rightarrow> nat \<Rightarrow> int" where
  "days_before_month y m =
     [0, 31, 59, 90, 120, 151, 181, 212, 243, 273, 304, 334] ! (m - 1)
       + (if 2 < m \<and> leap_year y then 1 else 0)"

definition days_from_civil :: "int \<Rightarrow> nat \<Rightarrow> nat \<Rightarrow> int" where
  "days_from_civil y m d =
     days_before_year y + days_before_month y m + (int d - 1) - 719162"

definition sys_days :: "year_month_day \<Rightarrow> int" where
  "sys_days v = days_from_civil (sint (ymd_year v)) (unat (ymd_month v)) (unat (ymd_day v))"

section \<open>Date (Date.h, Date.cpp)\<close>

text \<open>
  The three data members of \<open>Date\<close>. A name here cannot end in an underscore, so a data
  member \<^verbatim>\<open>x_\<close> of a class \<open>K\<close> is the field \<open>K_x\<close>. \<open>Date_mtx\<close> is the object's
  \<open>std::mutex\<close>: \<open>True\<close> while the running thread owns it. \<open>SerialType\<close> is \<open>long\<close>; the day count of every \<open>ok\<close>
  date fits into 32 bits (\<open>sys_days_fits_long\<close> below), so it is an \<open>int\<close> here.
\<close>

record Date =
  Date_mtx :: bool
  Date_year_month_day :: year_month_day
  Date_serial_number :: int

text \<open>\<open>std::mutex::lock\<close> by the running thread: the mutex must not be owned already.\<close>

definition lock :: "bool \<Rightarrow> error + bool" where
  "lock m = (if m then Inl RelockOwnedMutex else Inr True)"

text \<open>\<open>Date::resetSerial\<close>; its own \<open>lock_guard\<close> is commented out in the source.\<close>

definition resetSerial :: "Date \<Rightarrow> Date" where
  "resetSerial this = this\<lparr>Date_serial_number := sys_days (Date_year_month_day this)\<rparr>"

text \<open>A \<open>Date\<close> object before its constructor body runs: the mutex is free, the other
  members are not yet set (both constructors assign them before any read).\<close>

definition fresh_Date :: Date where
  "fresh_Date = \<lparr>Date_mtx = False, Date_year_month_day = \<lparr>ymd_year = 0, ymd_month = 0, ymd_day = 0\<rparr>, Date_serial_number = 0\<rparr>"

text \<open>\<open>Date::Date()\<close>: locks the new object's mutex, sets 1900-01-01, resets the serial
  number; the \<open>lock_guard\<close> releases the mutex on return.\<close>

definition Date_default :: "error + Date" where
  "Date_default =
     (case lock (Date_mtx fresh_Date) of
        Inl e \<Rightarrow> Inl e
      | Inr held \<Rightarrow>
          Inr ((resetSerial (fresh_Date\<lparr>Date_mtx := held,
                  Date_year_month_day := \<lparr>ymd_year = 1900, ymd_month = 1, ymd_day = 1\<rparr>\<rparr>))\<lparr>Date_mtx := False\<rparr>))"

text \<open>\<open>Date::Date(Year, Month, Day)\<close>: throws when the date is not \<open>ok\<close>; the object under
  construction is then destroyed, so the result is the error alone.\<close>

definition Date_ctor :: "Year \<Rightarrow> Month \<Rightarrow> Day \<Rightarrow> error + Date" where
  "Date_ctor year month day =
     (case lock (Date_mtx fresh_Date) of
        Inl e \<Rightarrow> Inl e
      | Inr held \<Rightarrow>
          (let this = fresh_Date\<lparr>Date_mtx := held,
                        Date_year_month_day := \<lparr>ymd_year = year, ymd_month = month, ymd_day = day\<rparr>\<rparr>
           in if \<not> ymd_ok (Date_year_month_day this) then Inl InvalidDate
              else Inr ((resetSerial this)\<lparr>Date_mtx := False\<rparr>)))"

text \<open>
  \<open>year + years\<close> converts the sum back to the \<open>short\<close> of a \<open>year\<close>. \<open>ymd += years\<close>
  changes the year only. \<open>ymd += months\<close> is \<open>(year/month + dm)/day\<close>: the month index
  \<open>month - 1 + dm\<close> is split by floored division by 12 into a year carry and a month.
  \<open>ymd -= n\<close> is \<open>ymd += -n\<close>. Neither touches the day, so the result need not be \<open>ok\<close>.
\<close>

definition year_plus :: "Year \<Rightarrow> int \<Rightarrow> Year" where
  "year_plus y n = word_of_int (sint y + n)"

definition ymd_plus_years :: "year_month_day \<Rightarrow> Years \<Rightarrow> year_month_day" where
  "ymd_plus_years v n = v\<lparr>ymd_year := year_plus (ymd_year v) n\<rparr>"

definition ymd_plus_months :: "year_month_day \<Rightarrow> Months \<Rightarrow> year_month_day" where
  "ymd_plus_months v dm =
     (let dmi = int (unat (ymd_month v)) - 1 + dm;
          dy = dmi div 12
      in v\<lparr>ymd_year := year_plus (ymd_year v) dy,
            ymd_month := word_of_int (dmi - dy * 12 + 1)\<rparr>)"

text \<open>\<open>Date::lastDayOfMonth\<close>. The index \<open>month - 1\<close> is computed in \<open>unsigned\<close>; outside
  \<open>1..12\<close> the read leaves the array.\<close>

definition lastDayOfMonth :: "year_month_day \<Rightarrow> error + Day" where
  "lastDayOfMonth v =
     (let days_in_month = [31, 28, 31, 30, 31, 30, 31, 31, 30, 31, 30, 31];
          month = unat (ymd_month v)
      in if is_leap (ymd_year v) \<and> month = 2 then Inr 29
         else if 1 \<le> month \<and> month \<le> 12 then Inr (of_nat (days_in_month ! (month - 1)))
         else Inl IndexOutOfRange)"

text \<open>The block that follows the addition in each of the four \<open>operator+=\<close> and
  \<open>operator-=\<close> for \<open>Years\<close> and \<open>Months\<close>: a date that is not \<open>ok\<close> gets the day
  \<open>lastDayOfMonth\<close> returns.\<close>

definition adjust_day :: "year_month_day \<Rightarrow> error + year_month_day" where
  "adjust_day v =
     (if \<not> ymd_ok v
      then (case lastDayOfMonth v of Inl e \<Rightarrow> Inl e | Inr d \<Rightarrow> Inr (v\<lparr>ymd_day := d\<rparr>))
      else Inr v)"

text \<open>\<open>Date::operator=\<close> for two different objects: \<open>std::lock(rhs.mtx_, mtx_)\<close> acquires
  both mutexes, the two data members are copied, both mutexes are released. The copy
  constructor assigns to the object under construction.\<close>

definition Date_assign :: "Date \<Rightarrow> Date \<Rightarrow> error + Date" where
  "Date_assign this rhs =
     (case lock (Date_mtx rhs) of
        Inl e \<Rightarrow> Inl e
      | Inr _ \<Rightarrow>
          (case lock (Date_mtx this) of
             Inl e \<Rightarrow> Inl e
           | Inr _ \<Rightarrow>
               Inr (this\<lparr>Date_year_month_day := Date_year_month_day rhs,
                         Date_serial_number := Date_serial_number rhs,
                         Date_mtx := False\<rparr>)))"

definition Date_copy :: "Date \<Rightarrow> error + Date" where
  "Date_copy date = Date_assign fresh_Date date"

text \<open>The compound assignments on \<open>Years\<close> and \<open>Months\<close>: lock, add, adjust the day,
  reset the serial number, unlock.\<close>

definition Date_plus_assign_Years :: "Date \<Rightarrow> Years \<Rightarrow> error + Date" where
  "Date_plus_assign_Years this years =
     (case lock (Date_mtx this) of
        Inl e \<Rightarrow> Inl e
      | Inr held \<Rightarrow>
          (case adjust_day (ymd_plus_years (Date_year_month_day this) years) of
             Inl e \<Rightarrow> Inl e
           | Inr v \<Rightarrow>
               Inr ((resetSerial (this\<lparr>Date_mtx := held, Date_year_month_day := v\<rparr>))
                      \<lparr>Date_mtx := False\<rparr>)))"

definition Date_minus_assign_Years :: "Date \<Rightarrow> Years \<Rightarrow> error + Date" where
  "Date_minus_assign_Years this years =
     (case lock (Date_mtx this) of
        Inl e \<Rightarrow> Inl e
      | Inr held \<Rightarrow>
          (case adjust_day (ymd_plus_years (Date_year_month_day this) (- years)) of
             Inl e \<Rightarrow> Inl e
           | Inr v \<Rightarrow>
               Inr ((resetSerial (this\<lparr>Date_mtx := held, Date_year_month_day := v\<rparr>))
                      \<lparr>Date_mtx := False\<rparr>)))"

definition Date_plus_assign_Months :: "Date \<Rightarrow> Months \<Rightarrow> error + Date" where
  "Date_plus_assign_Months this months =
     (case lock (Date_mtx this) of
        Inl e \<Rightarrow> Inl e
      | Inr held \<Rightarrow>
          (case adjust_day (ymd_plus_months (Date_year_month_day this) months) of
             Inl e \<Rightarrow> Inl e
           | Inr v \<Rightarrow>
               Inr ((resetSerial (this\<lparr>Date_mtx := held, Date_year_month_day := v\<rparr>))
                      \<lparr>Date_mtx := False\<rparr>)))"

definition Date_minus_assign_Months :: "Date \<Rightarrow> Months \<Rightarrow> error + Date" where
  "Date_minus_assign_Months this months =
     (case lock (Date_mtx this) of
        Inl e \<Rightarrow> Inl e
      | Inr held \<Rightarrow>
          (case adjust_day (ymd_plus_months (Date_year_month_day this) (- months)) of
             Inl e \<Rightarrow> Inl e
           | Inr v \<Rightarrow>
               Inr ((resetSerial (this\<lparr>Date_mtx := held, Date_year_month_day := v\<rparr>))
                      \<lparr>Date_mtx := False\<rparr>)))"

text \<open>
  The binary operators. \<open>operator+(Years)\<close> and \<open>operator-(Years)\<close> copy \<open>*this\<close>, apply
  the compound assignment to the copy and return it. \<open>operator+(Months)\<close> and
  \<open>operator-(Months)\<close> do the same, but under a \<open>lock_guard\<close> on \<open>mtx_\<close> of \<open>*this\<close>, so
  the copy constructor runs while the source's mutex is owned.
\<close>

definition Date_plus_Years :: "Date \<Rightarrow> Years \<Rightarrow> error + Date" where
  "Date_plus_Years this years =
     (case Date_copy this of
        Inl e \<Rightarrow> Inl e
      | Inr date \<Rightarrow> Date_plus_assign_Years date years)"

definition Date_minus_Years :: "Date \<Rightarrow> Years \<Rightarrow> error + Date" where
  "Date_minus_Years this years =
     (case Date_copy this of
        Inl e \<Rightarrow> Inl e
      | Inr date \<Rightarrow> Date_minus_assign_Years date years)"

definition Date_plus_Months :: "Date \<Rightarrow> Months \<Rightarrow> error + Date" where
  "Date_plus_Months this months =
     (case lock (Date_mtx this) of
        Inl e \<Rightarrow> Inl e
      | Inr held \<Rightarrow>
          (case Date_copy (this\<lparr>Date_mtx := held\<rparr>) of
             Inl e \<Rightarrow> Inl e
           | Inr date \<Rightarrow> Date_plus_assign_Months date months))"

definition Date_minus_Months :: "Date \<Rightarrow> Months \<Rightarrow> error + Date" where
  "Date_minus_Months this months =
     (case lock (Date_mtx this) of
        Inl e \<Rightarrow> Inl e
      | Inr held \<Rightarrow>
          (case Date_copy (this\<lparr>Date_mtx := held\<rparr>) of
             Inl e \<Rightarrow> Inl e
           | Inr date \<Rightarrow> Date_minus_assign_Months date months))"

text \<open>The comparison operators: each locks \<open>mtx_\<close> of \<open>*this\<close> and compares the two serial
  numbers.\<close>

definition Date_eq :: "Date \<Rightarrow> Date \<Rightarrow> error + bool" where
  "Date_eq this rhs =
     (case lock (Date_mtx this) of
        Inl e \<Rightarrow> Inl e
      | Inr _ \<Rightarrow> Inr (Date_serial_number this = Date_serial_number rhs))"

definition Date_greater :: "Date \<Rightarrow> Date \<Rightarrow> error + bool" where
  "Date_greater this rhs =
     (case lock (Date_mtx this) of
        Inl e \<Rightarrow> Inl e
      | Inr _ \<Rightarrow> Inr (Date_serial_number this > Date_serial_number rhs))"

definition Date_less :: "Date \<Rightarrow> Date \<Rightarrow> error + bool" where
  "Date_less this rhs =
     (case lock (Date_mtx this) of
        Inl e \<Rightarrow> Inl e
      | Inr _ \<Rightarrow> Inr (Date_serial_number this < Date_serial_number rhs))"

definition Date_greater_eq :: "Date \<Rightarrow> Date \<Rightarrow> error + bool" where
  "Date_greater_eq this rhs =
     (case lock (Date_mtx this) of
        Inl e \<Rightarrow> Inl e
      | Inr _ \<Rightarrow> Inr (Date_serial_number this \<ge> Date_serial_number rhs))"

definition Date_less_eq :: "Date \<Rightarrow> Date \<Rightarrow> error + bool" where
  "Date_less_eq this rhs =
     (case lock (Date_mtx this) of
        Inl e \<Rightarrow> Inl e
      | Inr _ \<Rightarrow> Inr (Date_serial_number this \<le> Date_serial_number rhs))"

section \<open>The calendar, as the specification speaks of it\<close>

text \<open>
  A triple is a real calendar date when the month is one of the twelve and the day is one
  of the days of that month: thirty days have April, June, September and November,
  February has twenty-eight and in a leap year twenty-nine, the others thirty-one. A year
  is a leap year when four divides it, unless a hundred does and four hundred does not.
  Calendar order compares years, then months, then days.
\<close>

definition gregorian_leap :: "int \<Rightarrow> bool" where
  "gregorian_leap y = (4 dvd y \<and> (\<not> 100 dvd y \<or> 400 dvd y))"

definition month_length :: "int \<Rightarrow> nat \<Rightarrow> nat" where
  "month_length y m =
     (if m = 2 then (if gregorian_leap y then 29 else 28)
      else if m = 4 \<or> m = 6 \<or> m = 9 \<or> m = 11 then 30 else 31)"

definition year_length :: "int \<Rightarrow> int" where
  "year_length y = (if gregorian_leap y then 366 else 365)"

definition real_calendar_date :: "int \<Rightarrow> nat \<Rightarrow> nat \<Rightarrow> bool" where
  "real_calendar_date y m d = (1 \<le> m \<and> m \<le> 12 \<and> 1 \<le> d \<and> d \<le> month_length y m)"

definition calendar_less :: "int \<times> nat \<times> nat \<Rightarrow> int \<times> nat \<times> nat \<Rightarrow> bool" where
  "calendar_less a b =
     (fst a < fst b \<or> (fst a = fst b \<and>
        (fst (snd a) < fst (snd b) \<or> (fst (snd a) = fst (snd b) \<and> snd (snd a) < snd (snd b)))))"

text \<open>The year, month and day of a \<open>Date\<close> as numbers, and the condition every \<open>Date\<close>
  satisfies between two calls: its mutex is free, its date is \<open>ok\<close> and its serial number
  is the day count of its date.\<close>

definition civil :: "Date \<Rightarrow> int \<times> nat \<times> nat" where
  "civil d = (sint (ymd_year (Date_year_month_day d)),
              unat (ymd_month (Date_year_month_day d)),
              unat (ymd_day (Date_year_month_day d)))"

definition Date_consistent :: "Date \<Rightarrow> bool" where
  "Date_consistent d = (\<not> Date_mtx d \<and> ymd_ok (Date_year_month_day d) \<and>
                        Date_serial_number d = sys_days (Date_year_month_day d))"

text \<open>A date with its day cut down to the length of its month.\<close>

definition clamped :: "year_month_day \<Rightarrow> year_month_day" where
  "clamped v = v\<lparr>ymd_day := of_nat (min (unat (ymd_day v))
                                  (month_length (sint (ymd_year v)) (unat (ymd_month v))))\<rparr>"

section \<open>Shared and weak pointers to slots\<close>

text \<open>
  A slot is a \<open>std::function\<close>: a value of a type \<open>'s\<close> together with the way it is called,
  \<open>call :: 's \<Rightarrow> 'a \<Rightarrow> 's heap \<times> 'u \<Rightarrow> 's heap \<times> 'u\<close>, where \<open>'a\<close> is the argument tuple,
  \<open>'u\<close> the state of the program outside the signals and the heap holds the slots with their
  owners: a callback may change the outside state and may let go of connections or make new
  ones. \<open>std::make_shared\<close> puts the slot into a new block of the heap. A \<open>ConnectionType\<close>
  (\<open>std::shared_ptr<SlotType>\<close>) is empty or points to a block; a block is in \<open>heap_slots\<close>
  as long as a shared pointer owns it, and a \<open>std::weak_ptr\<close> to it can be locked exactly that
  long. Blocks are numbered in the order of their allocation, and a number is not used
  again.
\<close>

type_synonym SlotPtr = nat
type_synonym ConnectionType = "SlotPtr option"

record 's heap =
  heap_slots :: "SlotPtr \<rightharpoonup> 's"
  heap_next :: SlotPtr

definition make_shared :: "'s \<Rightarrow> 's heap \<Rightarrow> SlotPtr \<times> 's heap" where
  "make_shared slot h =
     (heap_next h,
      h\<lparr>heap_slots := (heap_slots h)(heap_next h \<mapsto> slot), heap_next := Suc (heap_next h)\<rparr>)"

text \<open>\<open>weak_ptr::lock\<close>: the shared pointer to the block if it is still owned, else the
  empty one.\<close>

definition weak_lock :: "'s heap \<Rightarrow> SlotPtr \<Rightarrow> ConnectionType" where
  "weak_lock h w = (case heap_slots h w of None \<Rightarrow> None | Some _ \<Rightarrow> Some w)"

text \<open>The last shared pointer to a block goes away: the slot is destroyed.\<close>

definition release :: "ConnectionType \<Rightarrow> 's heap \<Rightarrow> 's heap" where
  "release connection h =
     (case connection of None \<Rightarrow> h | Some c \<Rightarrow> h\<lparr>heap_slots := (heap_slots h)(c := None)\<rparr>)"

section \<open>Signal (Signal.h)\<close>

text \<open>
  \<open>connections_\<close> is the vector of weak pointers. No method of \<open>Signal\<close> locks \<open>mtx_\<close> twice.
  \<open>emit\<close> holds the mutex while it calls the slots, so a slot that called \<open>connect\<close>,
  \<open>disconnect\<close> or \<open>emit\<close> of the emitting signal would lock it again; a slot therefore acts
  on the heap and the outside state and not on the vector, and the mutex is not part of the
  state here.
\<close>

record Signal =
  Signal_connections :: "SlotPtr list"

text \<open>\<open>Signal::connect\<close>: a new shared pointer to the slot, a weak pointer to it pushed to
  the back of the vector, and the shared pointer returned.\<close>

definition connect :: "'s \<Rightarrow> Signal \<times> 's heap \<Rightarrow> ConnectionType \<times> Signal \<times> 's heap" where
  "connect slot sh =
     (case sh of (this, h) \<Rightarrow>
        (case make_shared slot h of (connection, h') \<Rightarrow>
           (Some connection,
            this\<lparr>Signal_connections := Signal_connections this @ [connection]\<rparr>,
            h')))"

text \<open>\<open>Signal::disconnect\<close>: \<open>remove_if\<close> and \<open>erase\<close> take out every weak pointer whose
  \<open>lock()\<close> equals the argument.\<close>

definition disconnect :: "ConnectionType \<Rightarrow> Signal \<times> 's heap \<Rightarrow> Signal" where
  "disconnect connection sh =
     (case sh of (this, h) \<Rightarrow>
        this\<lparr>Signal_connections :=
               filter (\<lambda>weak_connection. \<not> (weak_lock h weak_connection = connection))
                 (Signal_connections this)\<rparr>)"

text \<open>\<open>Signal::emit\<close>: \<open>remove_if\<close> applies the condition to each weak pointer once, front
  to back. The condition locks the pointer in the heap as the slots called before have left
  it; when that gives a slot it calls the slot and answers \<open>false\<close> (keep), otherwise it
  answers \<open>true\<close> (remove). \<open>emit_each\<close> returns the pointers kept, and the heap and the
  outside state after the calls.\<close>

fun emit_each :: "('s \<Rightarrow> 'a \<Rightarrow> 's heap \<times> 'u \<Rightarrow> 's heap \<times> 'u) \<Rightarrow> 'a \<Rightarrow> SlotPtr list
                    \<Rightarrow> 's heap \<times> 'u \<Rightarrow> SlotPtr list \<times> 's heap \<times> 'u" where
  "emit_each call args [] hu = ([], hu)"
| "emit_each call args (weak_connection # rest) hu =
     (case heap_slots (fst hu) weak_connection of
        Some slot \<Rightarrow>
          (case emit_each call args rest (call slot args hu) of
             (kept, hu') \<Rightarrow> (weak_connection # kept, hu'))
      | None \<Rightarrow> emit_each call args rest hu)"

definition emit :: "('s \<Rightarrow> 'a \<Rightarrow> 's heap \<times> 'u \<Rightarrow> 's heap \<times> 'u) \<Rightarrow> 'a
                    \<Rightarrow> Signal \<times> 's heap \<times> 'u \<Rightarrow> Signal \<times> 's heap \<times> 'u" where
  "emit call args shu =
     (case shu of (this, hu) \<Rightarrow>
        (case emit_each call args (Signal_connections this) hu of
           (kept, hu') \<Rightarrow> (this\<lparr>Signal_connections := kept\<rparr>, hu')))"

text \<open>A slot that leaves the heap as it is and changes the outside state by \<open>f\<close>.\<close>

definition outside :: "('s \<Rightarrow> 'a \<Rightarrow> 'u \<Rightarrow> 'u) \<Rightarrow> 's \<Rightarrow> 'a \<Rightarrow> 's heap \<times> 'u \<Rightarrow> 's heap \<times> 'u" where
  "outside f slot args hu = (fst hu, f slot args (snd hu))"

section \<open>Observable and Observer (Observable.h)\<close>

text \<open>
  An observer is known to an observable by its address. The slot that
  \<open>registerObserver\<close> builds is the closure \<open>[observer](args) { observer->onNotify(args); }\<close>:
  as a value it is the captured pointer, and calling it is \<open>onNotify\<close> of that observer, the
  virtual function the concrete observers implement. \<open>Observable::connections_\<close> is the map
  from observers to their connections; it holds the only shared pointer to each slot, and an
  observer can have one removed only through \<open>unregisterObserver\<close>, which calls into the
  signal. So \<open>onNotify\<close> acts on the outside state.
\<close>

type_synonym ObserverPtr = nat
type_synonym ObservablePtr = nat

record Observable =
  Observable_signal :: Signal
  Observable_connections :: "ObserverPtr \<rightharpoonup> ConnectionType"

definition notifyObservers ::
    "(ObserverPtr \<Rightarrow> 'a \<Rightarrow> 'u \<Rightarrow> 'u) \<Rightarrow> 'a \<Rightarrow> 'z Observable_scheme \<times> ObserverPtr heap \<times> 'u
       \<Rightarrow> 'z Observable_scheme \<times> 'u" where
  "notifyObservers onNotify args ohu =
     (case ohu of (this, h, u) \<Rightarrow>
        (case emit (outside onNotify) args (Observable_signal this, h, u) of
           (signal', h', u') \<Rightarrow> (this\<lparr>Observable_signal := signal'\<rparr>, u')))"

definition registerObserver ::
    "ObserverPtr \<Rightarrow> 'z Observable_scheme \<times> ObserverPtr heap
       \<Rightarrow> 'z Observable_scheme \<times> ObserverPtr heap" where
  "registerObserver observer oh =
     (case oh of (this, h) \<Rightarrow>
        (if Observable_connections this observer = None
         then (case connect observer (Observable_signal this, h) of
                 (connection, signal', h') \<Rightarrow>
                   (this\<lparr>Observable_signal := signal',
                          Observable_connections :=
                            (Observable_connections this)(observer \<mapsto> connection)\<rparr>,
                    h'))
         else (this, h)))"

text \<open>\<open>unregisterObserver\<close>: erasing the map entry destroys the only shared pointer to the
  slot.\<close>

definition unregisterObserver ::
    "ObserverPtr \<Rightarrow> 'z Observable_scheme \<times> ObserverPtr heap
       \<Rightarrow> 'z Observable_scheme \<times> ObserverPtr heap" where
  "unregisterObserver observer oh =
     (case oh of (this, h) \<Rightarrow>
        (case Observable_connections this observer of
           None \<Rightarrow> (this, h)
         | Some connection \<Rightarrow>
             (this\<lparr>Observable_signal := disconnect connection (Observable_signal this, h),
                    Observable_connections := (Observable_connections this)(observer := None)\<rparr>,
              release connection h)))"

text \<open>
  \<open>Observer::observables_\<close> is a \<open>std::set\<close> of addresses: a sorted list without
  repetitions. The objects live in a store, each under its address; an address without an
  object is one that was never constructed or has been destroyed, and a call through it is
  undefined: the result \<open>None\<close>.
\<close>

record Observer =
  Observer_observables :: "ObservablePtr list"

definition set_insert :: "ObservablePtr \<Rightarrow> ObservablePtr list \<Rightarrow> ObservablePtr list" where
  "set_insert x xs = (if x \<in> set xs then xs else insort x xs)"

definition set_erase :: "ObservablePtr \<Rightarrow> ObservablePtr list \<Rightarrow> ObservablePtr list" where
  "set_erase x xs = removeAll x xs"

record 'z store =
  store_observers :: "ObserverPtr \<rightharpoonup> Observer"
  store_observables :: "ObservablePtr \<rightharpoonup> 'z Observable_scheme"
  store_heap :: "ObserverPtr heap"

definition registerWith :: "ObserverPtr \<Rightarrow> ObservablePtr \<Rightarrow> 'z store \<Rightarrow> 'z store option" where
  "registerWith this observable st =
     (case store_observers st this of
        None \<Rightarrow> None
      | Some self \<Rightarrow>
          (case store_observables st observable of
             None \<Rightarrow> None
           | Some target \<Rightarrow>
               (case registerObserver this (target, store_heap st) of
                  (target', h') \<Rightarrow>
                    Some (st\<lparr>store_observables := (store_observables st)(observable \<mapsto> target'),
                             store_heap := h',
                             store_observers := (store_observers st)(this \<mapsto>
                               self\<lparr>Observer_observables :=
                                      set_insert observable (Observer_observables self)\<rparr>)\<rparr>))))"

definition unregisterWith :: "ObserverPtr \<Rightarrow> ObservablePtr \<Rightarrow> 'z store \<Rightarrow> 'z store option" where
  "unregisterWith this observable st =
     (case store_observers st this of
        None \<Rightarrow> None
      | Some self \<Rightarrow>
          (case store_observables st observable of
             None \<Rightarrow> None
           | Some target \<Rightarrow>
               (case unregisterObserver this (target, store_heap st) of
                  (target', h') \<Rightarrow>
                    Some (st\<lparr>store_observables := (store_observables st)(observable \<mapsto> target'),
                             store_heap := h',
                             store_observers := (store_observers st)(this \<mapsto>
                               self\<lparr>Observer_observables :=
                                      set_erase observable (Observer_observables self)\<rparr>)\<rparr>))))"

text \<open>\<open>Observer::~Observer\<close>: the loop over \<open>observables_\<close> calls \<open>unregisterObserver(this)\<close>
  on each; after the body the object, with its set, is gone.\<close>

fun unregister_all :: "ObserverPtr \<Rightarrow> ObservablePtr list \<Rightarrow> 'z store \<Rightarrow> 'z store option" where
  "unregister_all this [] st = Some st"
| "unregister_all this (observable # rest) st =
     (case store_observables st observable of
        None \<Rightarrow> None
      | Some target \<Rightarrow>
          (case unregisterObserver this (target, store_heap st) of
             (target', h') \<Rightarrow>
               unregister_all this rest
                 (st\<lparr>store_observables := (store_observables st)(observable \<mapsto> target'),
                      store_heap := h'\<rparr>)))"

definition destroy_Observer :: "ObserverPtr \<Rightarrow> 'z store \<Rightarrow> 'z store option" where
  "destroy_Observer this st =
     (case store_observers st this of
        None \<Rightarrow> None
      | Some self \<Rightarrow>
          (case unregister_all this (Observer_observables self) st of
             None \<Rightarrow> None
           | Some st' \<Rightarrow> Some (st'\<lparr>store_observers := (store_observers st')(this := None)\<rparr>)))"

text \<open>\<open>notifyObservers\<close> called on the observable at an address of the store.\<close>

definition notify ::
    "(ObserverPtr \<Rightarrow> 'a \<Rightarrow> 'u \<Rightarrow> 'u) \<Rightarrow> ObservablePtr \<Rightarrow> 'a \<Rightarrow> 'z store \<times> 'u
       \<Rightarrow> ('z store \<times> 'u) option" where
  "notify onNotify observable args su =
     (case su of (st, u) \<Rightarrow>
        (case store_observables st observable of
           None \<Rightarrow> None
         | Some target \<Rightarrow>
             (case notifyObservers onNotify args (target, store_heap st, u) of
                (target', u') \<Rightarrow>
                  Some (st\<lparr>store_observables := (store_observables st)(observable \<mapsto> target')\<rparr>,
                        u'))))"

text \<open>The calls a program makes on observers, and a run of a sequence of them.\<close>

datatype call =
    RegisterWith ObserverPtr ObservablePtr
  | UnregisterWith ObserverPtr ObservablePtr
  | DestroyObserver ObserverPtr

fun exec :: "call \<Rightarrow> 'z store \<Rightarrow> 'z store option" where
  "exec (RegisterWith this observable) st = registerWith this observable st"
| "exec (UnregisterWith this observable) st = unregisterWith this observable st"
| "exec (DestroyObserver this) st = destroy_Observer this st"

fun run :: "call list \<Rightarrow> 'z store \<Rightarrow> 'z store option" where
  "run [] st = Some st"
| "run (c # cs) st = (case exec c st of None \<Rightarrow> None | Some st' \<Rightarrow> run cs st')"

text \<open>An observer whose \<open>onNotify\<close> writes down that it was called, and with what.\<close>

definition record_call :: "ObserverPtr \<Rightarrow> 'a \<Rightarrow> (ObserverPtr \<times> 'a) list \<Rightarrow> (ObserverPtr \<times> 'a) list" where
  "record_call observer args log = log @ [(observer, args)]"

section \<open>ObservableValue (ObservableValue.h)\<close>

text \<open>
  An \<open>Observable\<close> with a stored value. \<open>ne\<close> is \<open>operator!=\<close> of the value type. \<open>set\<close>
  stores the new value when \<open>value != value_\<close>, leaves the block, and calls
  \<open>notifyObservers(value_)\<close>. The mutex of \<open>ObservableValue\<close> is locked once in \<open>get\<close> and
  once in \<open>set\<close> and released before \<open>notifyObservers\<close>.
\<close>

record 't ObservableValue = Observable +
  ObservableValue_value :: 't

definition get_value :: "'t ObservableValue \<Rightarrow> 't" where
  "get_value this = ObservableValue_value this"

definition set_value ::
    "('t \<Rightarrow> 't \<Rightarrow> bool) \<Rightarrow> (ObserverPtr \<Rightarrow> 't \<Rightarrow> 'u \<Rightarrow> 'u) \<Rightarrow> 't
       \<Rightarrow> 't ObservableValue \<times> ObserverPtr heap \<times> 'u \<Rightarrow> 't ObservableValue \<times> 'u" where
  "set_value ne onNotify v ohu =
     (case ohu of (this, h, u) \<Rightarrow>
        (let this' = (if ne v (ObservableValue_value this)
                      then this\<lparr>ObservableValue_value := v\<rparr> else this)
         in notifyObservers onNotify (ObservableValue_value this') (this', h, u)))"

section \<open>The state between two calls\<close>

text \<open>
  \<open>weak_connections\<close> is the vector of weak pointers of an observable's signal and
  \<open>subscribers\<close> the observers its slots that can still be locked point to, in the order of
  the vector: the observers a notification calls.
\<close>

definition weak_connections :: "'z Observable_scheme \<Rightarrow> SlotPtr list" where
  "weak_connections target = Signal_connections (Observable_signal target)"

definition subscribers :: "'z Observable_scheme \<Rightarrow> 's heap \<Rightarrow> 's list" where
  "subscribers target h = List.map_filter (heap_slots h) (weak_connections target)"

text \<open>
  \<open>registered st b p\<close>: the registry of the observable at \<open>b\<close> has an entry for the observer
  \<open>p\<close>. \<open>tracks st p b\<close>: the observer at \<open>p\<close> has \<open>b\<close> in its set. \<open>mirror\<close> is the invariant
  the specification names: each holds exactly when the other does.
\<close>

definition registered :: "'z store \<Rightarrow> ObservablePtr \<Rightarrow> ObserverPtr \<Rightarrow> bool" where
  "registered st observable observer =
     (\<exists>target. store_observables st observable = Some target \<and>
         Observable_connections target observer \<noteq> None)"

definition tracks :: "'z store \<Rightarrow> ObserverPtr \<Rightarrow> ObservablePtr \<Rightarrow> bool" where
  "tracks st observer observable =
     (\<exists>self. store_observers st observer = Some self \<and>
         observable \<in> set (Observer_observables self))"

definition mirror :: "'z store \<Rightarrow> bool" where
  "mirror st = (\<forall>observer observable.
     tracks st observer observable \<longleftrightarrow> registered st observable observer)"

text \<open>
  \<open>linked h target\<close>: the weak pointers of the signal are those of the connections in the
  registry, each once; no registry entry is an empty connection; the slot of the connection
  of an observer is owned, captures that observer, and was allocated before the next block.
  \<open>connected\<close>: every observable of the store is linked, and no connection is in the signals
  of two observables.
\<close>

definition linked :: "ObserverPtr heap \<Rightarrow> 'z Observable_scheme \<Rightarrow> bool" where
  "linked h target =
     (distinct (weak_connections target) \<and>
      (\<forall>c. c \<in> set (weak_connections target)
            \<longleftrightarrow> (\<exists>observer. Observable_connections target observer = Some (Some c))) \<and>
      (\<forall>observer. Observable_connections target observer \<noteq> Some None) \<and>
      (\<forall>observer c. Observable_connections target observer = Some (Some c)
            \<longrightarrow> heap_slots h c = Some observer \<and> c < heap_next h))"

definition connected :: "'z store \<Rightarrow> bool" where
  "connected st =
     ((\<forall>observable target. store_observables st observable = Some target
          \<longrightarrow> linked (store_heap st) target) \<and>
      (\<forall>a b s t c. store_observables st a = Some s \<and> store_observables st b = Some t \<and>
          c \<in> set (weak_connections s) \<and> c \<in> set (weak_connections t) \<longrightarrow> a = b))"

text \<open>A store in which nothing is registered yet, and one with two observers and one
  observable.\<close>

definition unsubscribed :: "'z store \<Rightarrow> bool" where
  "unsubscribed st =
     ((\<forall>p self. store_observers st p = Some self \<longrightarrow> Observer_observables self = []) \<and>
      (\<forall>b target. store_observables st b = Some target \<longrightarrow>
          Observable_connections target = Map.empty \<and> weak_connections target = []))"

definition example_store :: "unit store" where
  "example_store =
     \<lparr>store_observers = [1 \<mapsto> \<lparr>Observer_observables = []\<rparr>, 2 \<mapsto> \<lparr>Observer_observables = []\<rparr>],
      store_observables =
        [10 \<mapsto> \<lparr>Observable_signal = \<lparr>Signal_connections = []\<rparr>,
                 Observable_connections = Map.empty\<rparr>],
      store_heap = \<lparr>heap_slots = Map.empty, heap_next = 0\<rparr>\<rparr>"

section \<open>The day count is monotone in calendar order\<close>

lemma leap_year_gregorian: "leap_year y = gregorian_leap y"
  unfolding leap_year_def gregorian_leap_def by (simp only: mod_eq_0_iff_dvd)

lemma div_step:
  fixes y k :: int
  assumes "0 < k"
  shows "y div k = (y - 1) div k + (if k dvd y then 1 else 0)"
proof -
  define q where "q = (y - 1) div k"
  define r where "r = (y - 1) mod k"
  have r: "0 \<le> r" "r < k" using assms by (simp_all add: r_def)
  have y: "y = q * k + (r + 1)" by (simp add: q_def r_def)
  have d: "y div k = q + (r + 1) div k"
    using assms by (subst y) simp
  have m: "y mod k = (r + 1) mod k"
    by (subst y) simp
  show ?thesis
  proof (cases "r + 1 = k")
    case True
    then have "y mod k = 0" "(r + 1) div k = 1" using m assms by simp_all
    then show ?thesis using d by (simp add: q_def mod_eq_0_iff_dvd)
  next
    case False
    then have "r + 1 < k" using r by simp
    then have "(r + 1) div k = 0" "(r + 1) mod k = r + 1" using r by simp_all
    then have "y div k = q" "y mod k \<noteq> 0" using d m r by simp_all
    then show ?thesis by (simp add: q_def mod_eq_0_iff_dvd)
  qed
qed

lemma dvd_400_100: "400 dvd (y::int) \<Longrightarrow> 100 dvd y"
proof -
  assume "400 dvd y"
  moreover have "(100::int) dvd 400" by simp
  ultimately show "100 dvd y" by (rule dvd_trans [rotated])
qed

lemma dvd_100_4: "100 dvd (y::int) \<Longrightarrow> 4 dvd y"
proof -
  assume "100 dvd y"
  moreover have "(4::int) dvd 100" by simp
  ultimately show "4 dvd y" by (rule dvd_trans [rotated])
qed

lemma days_before_year_step:
  "days_before_year (y + 1) = days_before_year y + year_length y"
proof -
  define a where "a = (y - 1) div 4"
  define b where "b = (y - 1) div 100"
  define c where "c = (y - 1) div 400"
  have d4: "y div 4 = a + (if 4 dvd y then 1 else 0)"
    unfolding a_def by (rule div_step) simp
  have d100: "y div 100 = b + (if 100 dvd y then 1 else 0)"
    unfolding b_def by (rule div_step) simp
  have d400: "y div 400 = c + (if 400 dvd y then 1 else 0)"
    unfolding c_def by (rule div_step) simp
  have l: "days_before_year (y + 1) = 365 * y + y div 4 - y div 100 + y div 400"
    by (simp add: days_before_year_def)
  have r: "days_before_year y = 365 * (y - 1) + a - b + c"
    by (simp add: days_before_year_def a_def b_def c_def)
  consider (n4) "\<not> 4 dvd y" | (n100) "4 dvd y" "\<not> 100 dvd y"
    | (n400) "100 dvd y" "\<not> 400 dvd y" | (y400) "400 dvd y"
    by argo
  then show ?thesis
  proof cases
    case n4
    then have n: "\<not> 100 dvd y" "\<not> 400 dvd y"
      using dvd_100_4 [of y] dvd_400_100 [of y] by argo+
    have "year_length y = 365" by (simp add: year_length_def gregorian_leap_def n4)
    moreover have "y div 4 = a" "y div 100 = b" "y div 400 = c"
      unfolding d4 d100 d400 using n4 n by simp_all
    ultimately show ?thesis unfolding l r by simp
  next
    case n100
    then have n: "\<not> 400 dvd y" using dvd_400_100 [of y] by argo
    have "year_length y = 366" by (simp add: year_length_def gregorian_leap_def n100)
    moreover have "y div 4 = a + 1" "y div 100 = b" "y div 400 = c"
      unfolding d4 d100 d400 using n100 n by simp_all
    ultimately show ?thesis unfolding l r by simp
  next
    case n400
    then have n: "4 dvd y" using dvd_100_4 [of y] by argo
    have "year_length y = 365" by (simp add: year_length_def gregorian_leap_def n400)
    moreover have "y div 4 = a + 1" "y div 100 = b + 1" "y div 400 = c"
      unfolding d4 d100 d400 using n400 n by simp_all
    ultimately show ?thesis unfolding l r by simp
  next
    case y400
    then have n: "100 dvd y" "4 dvd y" using dvd_100_4 [of y] dvd_400_100 [of y] by argo+
    have "year_length y = 366" by (simp add: year_length_def gregorian_leap_def y400 n)
    moreover have "y div 4 = a + 1" "y div 100 = b + 1" "y div 400 = c + 1"
      unfolding d4 d100 d400 using y400 n by simp_all
    ultimately show ?thesis unfolding l r by simp
  qed
qed

lemma year_length_pos: "365 \<le> year_length y"
  by (simp add: year_length_def)

lemma days_before_year_mono: "y1 \<le> y2 \<Longrightarrow> days_before_year y1 \<le> days_before_year y2"
proof (induction y2 rule: int_ge_induct)
  case base
  show ?case by simp
next
  case (step i)
  then show ?case using days_before_year_step [of i] year_length_pos [of i] by simp
qed

lemma days_before_year_next:
  assumes "y1 < y2"
  shows "days_before_year y1 + year_length y1 \<le> days_before_year y2"
proof -
  have "days_before_year (y1 + 1) \<le> days_before_year y2"
    using assms by (intro days_before_year_mono) simp
  then show ?thesis by (simp add: days_before_year_step)
qed


lemma month_cases:
  fixes m :: nat
  assumes "1 \<le> m" "m \<le> 12"
  shows "m = 1 \<or> m = 2 \<or> m = 3 \<or> m = 4 \<or> m = 5 \<or> m = 6 \<or> m = 7 \<or> m = 8 \<or> m = 9
         \<or> m = 10 \<or> m = 11 \<or> m = 12"
  using assms by arith

lemma days_before_month_step:
  assumes "1 \<le> m" "m < 12"
  shows "days_before_month y (Suc m) = days_before_month y m + int (month_length y m)"
proof -
  have "m = 1 \<or> m = 2 \<or> m = 3 \<or> m = 4 \<or> m = 5 \<or> m = 6 \<or> m = 7 \<or> m = 8 \<or> m = 9
         \<or> m = 10 \<or> m = 11"
    using assms by arith
  then show ?thesis
    by (elim disjE) (simp_all add: days_before_month_def month_length_def leap_year_gregorian)
qed

lemma days_before_month_last: "days_before_month y 12 + 31 = year_length y"
  by (simp add: days_before_month_def year_length_def leap_year_gregorian)

lemma days_before_month_mono:
  assumes "1 \<le> m1" "m1 \<le> m2" "m2 \<le> 12"
  shows "days_before_month y m1 \<le> days_before_month y m2"
  using assms(2,1,3)
proof (induction m2 rule: dec_induct)
  case base
  show ?case by simp
next
  case (step n)
  then have "days_before_month y (Suc n) = days_before_month y n + int (month_length y n)"
    by (intro days_before_month_step) simp_all
  with step show ?case by simp
qed

lemma days_before_next_month:
  assumes "1 \<le> m1" "m1 < m2" "m2 \<le> 12"
  shows "days_before_month y m1 + int (month_length y m1) \<le> days_before_month y m2"
proof -
  have "days_before_month y (Suc m1) \<le> days_before_month y m2"
    using assms by (intro days_before_month_mono) simp_all
  moreover have "days_before_month y (Suc m1) = days_before_month y m1 + int (month_length y m1)"
    using assms by (intro days_before_month_step) simp_all
  ultimately show ?thesis by simp
qed

lemma days_before_month_nonneg: "1 \<le> m \<Longrightarrow> m \<le> 12 \<Longrightarrow> 0 \<le> days_before_month y m"
  using days_before_month_mono [of 1 m y] by (simp add: days_before_month_def)

lemma days_in_year_bound:
  assumes "real_calendar_date y m d"
  shows "0 \<le> days_before_month y m + (int d - 1)"
    and "days_before_month y m + (int d - 1) < year_length y"
proof -
  from assms have m: "1 \<le> m" "m \<le> 12" and d: "1 \<le> d" "d \<le> month_length y m"
    by (simp_all add: real_calendar_date_def)
  show "0 \<le> days_before_month y m + (int d - 1)"
    using days_before_month_nonneg [OF m, of y] d by simp
  show "days_before_month y m + (int d - 1) < year_length y"
  proof (cases "m = 12")
    case True
    then show ?thesis using d days_before_month_last [of y] by (simp add: month_length_def)
  next
    case False
    then have "days_before_month y m + int (month_length y m) \<le> days_before_month y 12"
      using m by (intro days_before_next_month) simp_all
    then show ?thesis using d days_before_month_last [of y] by simp
  qed
qed

lemma days_from_civil_less:
  assumes "real_calendar_date y1 m1 d1" "real_calendar_date y2 m2 d2"
    and "calendar_less (y1, m1, d1) (y2, m2, d2)"
  shows "days_from_civil y1 m1 d1 < days_from_civil y2 m2 d2"
proof -
  from assms(1) have m1: "1 \<le> m1" "m1 \<le> 12" and d1: "1 \<le> d1" "d1 \<le> month_length y1 m1"
    by (simp_all add: real_calendar_date_def)
  from assms(2) have m2: "1 \<le> m2" "m2 \<le> 12" and d2: "1 \<le> d2" "d2 \<le> month_length y2 m2"
    by (simp_all add: real_calendar_date_def)
  consider (year) "y1 < y2" | (month) "y1 = y2" "m1 < m2" | (day) "y1 = y2" "m1 = m2" "d1 < d2"
    using assms(3) by (auto simp: calendar_less_def)
  then show ?thesis
  proof cases
    case year
    have "days_before_month y1 m1 + (int d1 - 1) < year_length y1"
      by (rule days_in_year_bound(2) [OF assms(1)])
    moreover have "days_before_year y1 + year_length y1 \<le> days_before_year y2"
      by (rule days_before_year_next [OF year])
    moreover have "0 \<le> days_before_month y2 m2 + (int d2 - 1)"
      by (rule days_in_year_bound(1) [OF assms(2)])
    ultimately show ?thesis by (simp add: days_from_civil_def)
  next
    case month
    have "days_before_month y1 m1 + int (month_length y1 m1) \<le> days_before_month y1 m2"
      using m1 m2 month by (intro days_before_next_month) simp_all
    then show ?thesis using d1 d2 month by (simp add: days_from_civil_def)
  next
    case day
    then show ?thesis by (simp add: days_from_civil_def)
  qed
qed

lemma calendar_less_total:
  "calendar_less a b \<or> a = b \<or> calendar_less b a"
  by (auto simp: calendar_less_def prod_eq_iff)

lemma days_from_civil_less_iff:
  assumes "real_calendar_date y1 m1 d1" "real_calendar_date y2 m2 d2"
  shows "days_from_civil y1 m1 d1 < days_from_civil y2 m2 d2
         \<longleftrightarrow> calendar_less (y1, m1, d1) (y2, m2, d2)"
  using days_from_civil_less [OF assms] days_from_civil_less [OF assms(2,1)]
    calendar_less_total [of "(y1, m1, d1)" "(y2, m2, d2)"]
  by auto

lemma days_from_civil_eq_iff:
  assumes "real_calendar_date y1 m1 d1" "real_calendar_date y2 m2 d2"
  shows "days_from_civil y1 m1 d1 = days_from_civil y2 m2 d2
         \<longleftrightarrow> (y1, m1, d1) = (y2, m2, d2)"
  using days_from_civil_less [OF assms] days_from_civil_less [OF assms(2,1)]
    calendar_less_total [of "(y1, m1, d1)" "(y2, m2, d2)"]
  by auto


section \<open>The chrono model against the calendar\<close>

lemma is_leap_gregorian: "is_leap y = gregorian_leap (sint y)"
  unfolding is_leap_def gregorian_leap_def by (simp only: mod_eq_0_iff_dvd)

lemma last_day_month_length:
  assumes "month_ok m"
  shows "last_day y m = month_length (sint y) (unat m)"
proof -
  have "1 \<le> unat m" "unat m \<le> 12" using assms by (simp_all add: month_ok_def)
  then have "unat m = 1 \<or> unat m = 2 \<or> unat m = 3 \<or> unat m = 4 \<or> unat m = 5 \<or> unat m = 6
      \<or> unat m = 7 \<or> unat m = 8 \<or> unat m = 9 \<or> unat m = 10 \<or> unat m = 11 \<or> unat m = 12"
    by (rule month_cases)
  then show ?thesis
    by (elim disjE) (simp_all add: last_day_def month_length_def is_leap_gregorian)
qed

lemma ymd_ok_iff:
  "ymd_ok v \<longleftrightarrow> year_ok (ymd_year v) \<and>
     real_calendar_date (sint (ymd_year v)) (unat (ymd_month v)) (unat (ymd_day v))"
  using last_day_month_length [of "ymd_month v" "ymd_year v"]
  by (auto simp: ymd_ok_def real_calendar_date_def month_ok_def)

lemma Date_ctor_eq:
  "Date_ctor y m d =
     (if ymd_ok \<lparr>ymd_year = y, ymd_month = m, ymd_day = d\<rparr>
      then Inr \<lparr>Date_mtx = False,
                Date_year_month_day = \<lparr>ymd_year = y, ymd_month = m, ymd_day = d\<rparr>,
                Date_serial_number = days_from_civil (sint y) (unat m) (unat d)\<rparr>
      else Inl InvalidDate)"
  by (simp add: Date_ctor_def lock_def fresh_Date_def resetSerial_def sys_days_def Let_def)

lemma Date_ctor_consistent: "Date_ctor y m d = Inr a \<Longrightarrow> Date_consistent a"
  by (auto simp: Date_ctor_eq Date_consistent_def sys_days_def split: if_splits)

lemma Date_ctor_civil: "Date_ctor y m d = Inr a \<Longrightarrow> civil a = (sint y, unat m, unat d)"
  by (auto simp: Date_ctor_eq civil_def split: if_splits)

lemma Date_consistent_real:
  "Date_consistent a \<Longrightarrow> real_calendar_date (fst (civil a)) (fst (snd (civil a))) (snd (snd (civil a)))"
  by (simp add: Date_consistent_def ymd_ok_iff civil_def)

lemma Date_consistent_serial:
  "Date_consistent a \<Longrightarrow>
     Date_serial_number a = days_from_civil (fst (civil a)) (fst (snd (civil a))) (snd (snd (civil a)))"
  by (simp add: Date_consistent_def sys_days_def civil_def)

lemma serial_less_iff:
  assumes "Date_consistent a" "Date_consistent b"
  shows "Date_serial_number a < Date_serial_number b \<longleftrightarrow> calendar_less (civil a) (civil b)"
  using days_from_civil_less_iff [OF Date_consistent_real [OF assms(1)] Date_consistent_real [OF assms(2)]]
  by (simp add: Date_consistent_serial [OF assms(1)] Date_consistent_serial [OF assms(2)])

lemma serial_eq_iff:
  assumes "Date_consistent a" "Date_consistent b"
  shows "Date_serial_number a = Date_serial_number b \<longleftrightarrow> civil a = civil b"
  using days_from_civil_eq_iff [OF Date_consistent_real [OF assms(1)] Date_consistent_real [OF assms(2)]]
  by (simp add: Date_consistent_serial [OF assms(1)] Date_consistent_serial [OF assms(2)] prod_eq_iff)

section \<open>Date: copying, locking and the day adjustment\<close>

lemma Date_copy_free: "\<not> Date_mtx d \<Longrightarrow> Date_copy d = Inr d"
  by (cases d) (simp add: Date_copy_def Date_assign_def lock_def fresh_Date_def)

lemma Date_copy_owned: "Date_mtx d \<Longrightarrow> Date_copy d = Inl RelockOwnedMutex"
  by (simp add: Date_copy_def Date_assign_def lock_def)

lemma Date_plus_Months_relock: "Date_plus_Months this months = Inl RelockOwnedMutex"
  by (simp add: Date_plus_Months_def lock_def Date_copy_owned)

lemma Date_minus_Months_relock: "Date_minus_Months this months = Inl RelockOwnedMutex"
  by (simp add: Date_minus_Months_def lock_def Date_copy_owned)

lemma last_day_bounds: "month_ok m \<Longrightarrow> 28 \<le> last_day y m \<and> last_day y m \<le> 31"
  by (simp add: last_day_month_length month_length_def)

lemma lastDayOfMonth_eq:
  assumes "month_ok (ymd_month v)"
  shows "lastDayOfMonth v = Inr (of_nat (last_day (ymd_year v) (ymd_month v)))"
proof -
  let ?m = "unat (ymd_month v)"
  have "1 \<le> ?m" "?m \<le> 12" using assms by (simp_all add: month_ok_def)
  then have "?m = 1 \<or> ?m = 2 \<or> ?m = 3 \<or> ?m = 4 \<or> ?m = 5 \<or> ?m = 6
      \<or> ?m = 7 \<or> ?m = 8 \<or> ?m = 9 \<or> ?m = 10 \<or> ?m = 11 \<or> ?m = 12"
    by (rule month_cases)
  then show ?thesis
    by (elim disjE) (simp_all add: lastDayOfMonth_def last_day_def)
qed

lemma unat_last_day:
  assumes "month_ok m"
  shows "unat (of_nat (last_day y m) :: Day) = last_day y m"
proof -
  have "last_day y m \<le> 31" using last_day_bounds [OF assms] by simp
  then have "last_day y m < 2 ^ 8" by simp
  then show ?thesis by (simp add: unat_of_nat)
qed

lemma adjust_day_clamps:
  assumes "year_ok (ymd_year v)" "month_ok (ymd_month v)" "1 \<le> unat (ymd_day v)"
  shows "adjust_day v =
           Inr (v\<lparr>ymd_day := of_nat (min (unat (ymd_day v)) (last_day (ymd_year v) (ymd_month v)))\<rparr>)"
    and "ymd_ok (v\<lparr>ymd_day := of_nat (min (unat (ymd_day v)) (last_day (ymd_year v) (ymd_month v)))\<rparr>)"
proof -
  let ?l = "last_day (ymd_year v) (ymd_month v)"
  have l: "28 \<le> ?l" "unat (of_nat ?l :: Day) = ?l"
    using last_day_bounds [OF assms(2)] unat_last_day [OF assms(2)] by simp_all
  show "adjust_day v = Inr (v\<lparr>ymd_day := of_nat (min (unat (ymd_day v)) ?l)\<rparr>)"
  proof (cases "ymd_ok v")
    case True
    then have "min (unat (ymd_day v)) ?l = unat (ymd_day v)" by (simp add: ymd_ok_def)
    then show ?thesis using True by (simp add: adjust_day_def)
  next
    case False
    then have "min (unat (ymd_day v)) ?l = ?l" using assms by (simp add: ymd_ok_def)
    then show ?thesis using False by (simp add: adjust_day_def lastDayOfMonth_eq [OF assms(2)])
  qed
  show "ymd_ok (v\<lparr>ymd_day := of_nat (min (unat (ymd_day v)) ?l)\<rparr>)"
  proof (cases "unat (ymd_day v) \<le> ?l")
    case True
    then show ?thesis using assms by (simp add: ymd_ok_def min_def)
  next
    case False
    then show ?thesis using assms l by (simp add: ymd_ok_def min_def)
  qed
qed

lemma unat_month_of_int:
  assumes "0 \<le> k" "k < 256"
  shows "unat (word_of_int k :: Month) = nat k"
proof -
  have "uint (word_of_int k :: Month) = k mod 2 ^ 8"
    by (simp add: uint_word_of_int)
  then have "uint (word_of_int k :: Month) = k" using assms by simp
  then show ?thesis by (simp only: unat_eq_nat_uint)
qed

lemma ymd_plus_months_month:
  "unat (ymd_month (ymd_plus_months v n)) = nat ((int (unat (ymd_month v)) - 1 + n) mod 12) + 1"
proof -
  define dmi where "dmi = int (unat (ymd_month v)) - 1 + n"
  define k where "k = dmi mod 12 + 1"
  have e: "dmi - dmi div 12 * 12 + 1 = k"
    by (simp add: minus_div_mult_eq_mod k_def)
  have b: "0 \<le> k" "k < 256" "nat k = nat (dmi mod 12) + 1" by (simp_all add: k_def nat_add_distrib)
  have "ymd_month (ymd_plus_months v n) = word_of_int k"
    unfolding ymd_plus_months_def Let_def dmi_def [symmetric] e by simp
  then show ?thesis
    using unat_month_of_int [OF b(1,2)] b(3) by (simp only: dmi_def)
qed

lemma ymd_plus_months_ok: "month_ok (ymd_month (ymd_plus_months v n))"
proof -
  have "(int (unat (ymd_month v)) - 1 + n) mod 12 < 12" by simp
  then show ?thesis unfolding month_ok_def ymd_plus_months_month by simp
qed

lemma adjust_day_clamped:
  assumes "year_ok (ymd_year v)" "month_ok (ymd_month v)" "1 \<le> unat (ymd_day v)"
  shows "adjust_day v = Inr (clamped v) \<and> ymd_ok (clamped v)"
  using adjust_day_clamps [OF assms] last_day_month_length [OF assms(2), of "ymd_year v"]
  by (simp add: clamped_def)

lemma ymd_plus_months_day: "ymd_day (ymd_plus_months v n) = ymd_day v"
  by (simp add: ymd_plus_months_def Let_def)

lemma Date_plus_assign_Months_clamps:
  assumes "Date_consistent this"
    and "year_ok (ymd_year (ymd_plus_months (Date_year_month_day this) n))"
  shows "Date_plus_assign_Months this n =
           Inr \<lparr>Date_mtx = False,
                Date_year_month_day = clamped (ymd_plus_months (Date_year_month_day this) n),
                Date_serial_number =
                  sys_days (clamped (ymd_plus_months (Date_year_month_day this) n))\<rparr>
         \<and> ymd_ok (clamped (ymd_plus_months (Date_year_month_day this) n))"
proof -
  let ?v = "ymd_plus_months (Date_year_month_day this) n"
  have d: "1 \<le> unat (ymd_day ?v)"
    using assms(1) by (simp add: ymd_plus_months_day Date_consistent_def ymd_ok_def)
  have a: "adjust_day ?v = Inr (clamped ?v)" "ymd_ok (clamped ?v)"
    using adjust_day_clamped [OF assms(2) ymd_plus_months_ok d] by simp_all
  have f: "\<not> Date_mtx this" using assms(1) by (simp add: Date_consistent_def)
  show ?thesis
    using a f by (simp add: Date_plus_assign_Months_def lock_def resetSerial_def)
qed

lemma Date_plus_assign_Years_clamps:
  assumes "Date_consistent this"
    and "year_ok (ymd_year (ymd_plus_years (Date_year_month_day this) n))"
  shows "Date_plus_assign_Years this n =
           Inr \<lparr>Date_mtx = False,
                Date_year_month_day = clamped (ymd_plus_years (Date_year_month_day this) n),
                Date_serial_number =
                  sys_days (clamped (ymd_plus_years (Date_year_month_day this) n))\<rparr>
         \<and> ymd_ok (clamped (ymd_plus_years (Date_year_month_day this) n))"
proof -
  let ?v = "ymd_plus_years (Date_year_month_day this) n"
  have d: "1 \<le> unat (ymd_day ?v)" "month_ok (ymd_month ?v)"
    using assms(1) by (simp_all add: ymd_plus_years_def Date_consistent_def ymd_ok_def)
  have a: "adjust_day ?v = Inr (clamped ?v)" "ymd_ok (clamped ?v)"
    using adjust_day_clamped [OF assms(2) d(2,1)] by simp_all
  have f: "\<not> Date_mtx this" using assms(1) by (simp add: Date_consistent_def)
  show ?thesis
    using a f by (simp add: Date_plus_assign_Years_def lock_def resetSerial_def)
qed

lemma Date_minus_assign_Months_eq:
  "Date_minus_assign_Months this n = Date_plus_assign_Months this (- n)"
  by (simp add: Date_minus_assign_Months_def Date_plus_assign_Months_def)

lemma Date_minus_assign_Years_eq:
  "Date_minus_assign_Years this n = Date_plus_assign_Years this (- n)"
  by (simp add: Date_minus_assign_Years_def Date_plus_assign_Years_def)

lemma Date_plus_Years_eq:
  "\<not> Date_mtx this \<Longrightarrow> Date_plus_Years this n = Date_plus_assign_Years this n"
  by (simp add: Date_plus_Years_def Date_copy_free)

lemma ymd_2023_1_31: "ymd_ok \<lparr>ymd_year = 2023, ymd_month = 1, ymd_day = 31\<rparr>"
  by (simp add: ymd_ok_def year_ok_def month_ok_def last_day_def is_leap_def)

lemma ymd_2024_1_31: "ymd_ok \<lparr>ymd_year = 2024, ymd_month = 1, ymd_day = 31\<rparr>"
  by (simp add: ymd_ok_def year_ok_def month_ok_def last_day_def is_leap_def)

lemma ymd_2023_2_28: "ymd_ok \<lparr>ymd_year = 2023, ymd_month = 2, ymd_day = 28\<rparr>"
  by (simp add: ymd_ok_def year_ok_def month_ok_def last_day_def is_leap_def)

lemma ymd_2023_2_31: "\<not> ymd_ok \<lparr>ymd_year = 2023, ymd_month = 2, ymd_day = 31\<rparr>"
  by (simp add: ymd_ok_def year_ok_def month_ok_def last_day_def is_leap_def)

lemma ymd_2024_2_31: "\<not> ymd_ok \<lparr>ymd_year = 2024, ymd_month = 2, ymd_day = 31\<rparr>"
  by (simp add: ymd_ok_def year_ok_def month_ok_def last_day_def is_leap_def)

lemma ymd_2024_2_29: "ymd_ok \<lparr>ymd_year = 2024, ymd_month = 2, ymd_day = 29\<rparr>"
  by (simp add: ymd_ok_def year_ok_def month_ok_def last_day_def is_leap_def)

lemma plus_one_month_2023:
  "ymd_plus_months \<lparr>ymd_year = 2023, ymd_month = 1, ymd_day = 31\<rparr> 1
     = \<lparr>ymd_year = 2023, ymd_month = 2, ymd_day = 31\<rparr>"
  by (simp add: ymd_plus_months_def year_plus_def)

lemma plus_one_month_2024:
  "ymd_plus_months \<lparr>ymd_year = 2024, ymd_month = 1, ymd_day = 31\<rparr> 1
     = \<lparr>ymd_year = 2024, ymd_month = 2, ymd_day = 31\<rparr>"
  by (simp add: ymd_plus_months_def year_plus_def)

lemmas civil_eval = days_from_civil_def days_before_year_def days_before_month_def leap_year_def

lemma Date_ctor_bad_year: "\<not> year_ok y \<Longrightarrow> Date_ctor y m d = Inl InvalidDate"
  by (simp add: Date_ctor_eq ymd_ok_def)

lemma ymd_2023_2_29: "\<not> ymd_ok \<lparr>ymd_year = 2023, ymd_month = 2, ymd_day = 29\<rparr>"
  by (simp add: ymd_ok_def year_ok_def month_ok_def last_day_def is_leap_def)

lemma Date_default_consistent: "Date_default = Inr d \<Longrightarrow> Date_consistent d"
  by (auto simp: Date_default_def lock_def fresh_Date_def resetSerial_def Date_consistent_def
      ymd_ok_def year_ok_def month_ok_def last_day_def)

lemma days_before_year_bounds:
  assumes "- 32767 \<le> y" "y \<le> 32767"
  shows "- 11968266 \<le> days_before_year y" "days_before_year y \<le> 11967535"
proof -
  have "days_before_year (- 32767) \<le> days_before_year y"
    using assms(1) by (rule days_before_year_mono)
  moreover have "days_before_year (- 32767) = - 11968266"
    by (simp add: days_before_year_def)
  ultimately show "- 11968266 \<le> days_before_year y" by simp
  have "days_before_year y \<le> days_before_year 32767"
    using assms(2) by (rule days_before_year_mono)
  moreover have "days_before_year 32767 = 11967535"
    by (simp add: days_before_year_def)
  ultimately show "days_before_year y \<le> 11967535" by simp
qed

lemma sys_days_fits_long:
  assumes "ymd_ok v"
  shows "- (2 ^ 31) \<le> sys_days v" "sys_days v < 2 ^ 31"
proof -
  from assms have y: "- 32767 \<le> sint (ymd_year v)" "sint (ymd_year v) \<le> 32767"
    and r: "real_calendar_date (sint (ymd_year v)) (unat (ymd_month v)) (unat (ymd_day v))"
    by (simp_all add: ymd_ok_iff year_ok_def)
  note b = days_before_year_bounds [OF y] days_in_year_bound [OF r]
  have "year_length (sint (ymd_year v)) \<le> 366" by (simp add: year_length_def)
  with b show "- (2 ^ 31) \<le> sys_days v" "sys_days v < 2 ^ 31"
    by (simp_all add: sys_days_def days_from_civil_def)
qed

lemma Date_plus_assign_Months_consistent:
  assumes "Date_consistent this"
    and "year_ok (ymd_year (ymd_plus_months (Date_year_month_day this) n))"
    and "Date_plus_assign_Months this n = Inr d"
  shows "Date_consistent d"
  using Date_plus_assign_Months_clamps [OF assms(1,2)] assms(3)
  by (auto simp: Date_consistent_def)

lemma Date_plus_assign_Years_consistent:
  assumes "Date_consistent this"
    and "year_ok (ymd_year (ymd_plus_years (Date_year_month_day this) n))"
    and "Date_plus_assign_Years this n = Inr d"
  shows "Date_consistent d"
  using Date_plus_assign_Years_clamps [OF assms(1,2)] assms(3)
  by (auto simp: Date_consistent_def)

lemma comparison_on_consistent:
  assumes "Date_consistent a" "Date_consistent b"
  shows
    "Date_eq a b = Inr (Date_serial_number a = Date_serial_number b) \<and>
     Date_less a b = Inr (Date_serial_number a < Date_serial_number b) \<and>
     Date_greater a b = Inr (Date_serial_number a > Date_serial_number b) \<and>
     Date_less_eq a b = Inr (Date_serial_number a \<le> Date_serial_number b) \<and>
     Date_greater_eq a b = Inr (Date_serial_number a \<ge> Date_serial_number b) \<and>
     (Date_eq a b = Inr True \<longleftrightarrow> civil a = civil b) \<and>
     (Date_less a b = Inr True \<longleftrightarrow> calendar_less (civil a) (civil b)) \<and>
     (Date_greater a b = Inr True \<longleftrightarrow> calendar_less (civil b) (civil a)) \<and>
     (Date_less_eq a b = Inr True \<longleftrightarrow> calendar_less (civil a) (civil b) \<or> civil a = civil b) \<and>
     (Date_greater_eq a b = Inr True \<longleftrightarrow> calendar_less (civil b) (civil a) \<or> civil a = civil b) \<and>
     (Date_less a b = Inr True \<or> Date_eq a b = Inr True \<or> Date_greater a b = Inr True)"
proof -
  have f: "\<not> Date_mtx a" using assms(1) by (simp add: Date_consistent_def)
  have l: "Date_serial_number a < Date_serial_number b \<longleftrightarrow> calendar_less (civil a) (civil b)"
    by (rule serial_less_iff [OF assms])
  have g: "Date_serial_number b < Date_serial_number a \<longleftrightarrow> calendar_less (civil b) (civil a)"
    by (rule serial_less_iff [OF assms(2,1)])
  have e: "Date_serial_number a = Date_serial_number b \<longleftrightarrow> civil a = civil b"
    by (rule serial_eq_iff [OF assms])
  have ops: "Date_eq a b = Inr (Date_serial_number a = Date_serial_number b)"
    "Date_less a b = Inr (Date_serial_number a < Date_serial_number b)"
    "Date_greater a b = Inr (Date_serial_number a > Date_serial_number b)"
    "Date_less_eq a b = Inr (Date_serial_number a \<le> Date_serial_number b)"
    "Date_greater_eq a b = Inr (Date_serial_number a \<ge> Date_serial_number b)"
    using f by (simp_all add: Date_eq_def Date_less_def Date_greater_def Date_less_eq_def
        Date_greater_eq_def lock_def)
  have le: "Date_serial_number a \<le> Date_serial_number b
      \<longleftrightarrow> calendar_less (civil a) (civil b) \<or> civil a = civil b"
    using l e by (simp add: order_le_less)
  have ge: "Date_serial_number b \<le> Date_serial_number a
      \<longleftrightarrow> calendar_less (civil b) (civil a) \<or> civil a = civil b"
    using g e by (auto simp: order_le_less)
  have tri: "Date_serial_number a < Date_serial_number b \<or>
      Date_serial_number a = Date_serial_number b \<or> Date_serial_number b < Date_serial_number a"
    by linarith
  show ?thesis
    unfolding ops using l g e le ge tri by simp
qed

lemma Date_ctor_2023_1_31:
  "Date_ctor 2023 1 31 =
     Inr \<lparr>Date_mtx = False,
          Date_year_month_day = \<lparr>ymd_year = 2023, ymd_month = 1, ymd_day = 31\<rparr>,
          Date_serial_number = 19388\<rparr>"
  by (simp add: Date_ctor_eq ymd_2023_1_31 civil_eval)

lemma Date_ctor_2024_2_29:
  "Date_ctor 2024 2 29 =
     Inr \<lparr>Date_mtx = False,
          Date_year_month_day = \<lparr>ymd_year = 2024, ymd_month = 2, ymd_day = 29\<rparr>,
          Date_serial_number = 19782\<rparr>"
  by (simp add: Date_ctor_eq ymd_2024_2_29 civil_eval)

section \<open>Signal: what emit and disconnect do\<close>

lemma emit_each_outside:
  "emit_each (outside f) args ws (h, u) =
     (filter (\<lambda>w. heap_slots h w \<noteq> None) ws, h,
      fold (\<lambda>slot. f slot args) (List.map_filter (heap_slots h) ws) u)"
  by (induction ws arbitrary: u) (auto simp: outside_def split: option.splits)





lemma weak_lock_None: "weak_lock h w = None \<longleftrightarrow> heap_slots h w = None"
  by (simp add: weak_lock_def split: option.splits)

lemma weak_lock_Some: "weak_lock h w = Some c \<longleftrightarrow> c = w \<and> heap_slots h w \<noteq> None"
  by (auto simp: weak_lock_def split: option.splits)

lemma emit_outside:
  "emit (outside f) args (this, h, u) =
     (this\<lparr>Signal_connections := filter (\<lambda>w. heap_slots h w \<noteq> None) (Signal_connections this)\<rparr>,
      h, fold (\<lambda>slot. f slot args) (List.map_filter (heap_slots h) (Signal_connections this)) u)"
  by (simp add: emit_def emit_each_outside)

lemma fold_record_call:
  "fold (\<lambda>slot. record_call slot args) xs log = log @ map (\<lambda>slot. (slot, args)) xs"
  by (induction xs arbitrary: log) (simp_all add: record_call_def)


lemma disconnect_absent:
  "c \<notin> set (Signal_connections this) \<Longrightarrow> disconnect (Some c) (this, h) = this"
proof -
  assume "c \<notin> set (Signal_connections this)"
  then have "filter (\<lambda>w. \<not> (weak_lock h w = Some c)) (Signal_connections this)
      = Signal_connections this"
    by (auto simp: weak_lock_Some filter_id_conv)
  then show ?thesis by (simp add: disconnect_def)
qed

lemma disconnect_live:
  "heap_slots h c \<noteq> None \<Longrightarrow>
     disconnect (Some c) (this, h) =
       this\<lparr>Signal_connections := filter (\<lambda>w. w \<noteq> c) (Signal_connections this)\<rparr>"
proof -
  assume "heap_slots h c \<noteq> None"
  then have "(\<lambda>w. \<not> (weak_lock h w = Some c)) = (\<lambda>w. w \<noteq> c)"
    by (auto simp: weak_lock_Some fun_eq_iff)
  then show ?thesis by (simp add: disconnect_def)
qed

lemma disconnect_empty:
  "disconnect None (this, h) =
     this\<lparr>Signal_connections := filter (\<lambda>w. heap_slots h w \<noteq> None) (Signal_connections this)\<rparr>"
  by (simp add: disconnect_def weak_lock_None)

lemma unregisterObserver_absent:
  "Observable_connections this observer = None \<Longrightarrow> unregisterObserver observer (this, h) = (this, h)"
  by (simp add: unregisterObserver_def)

lemma registerObserver_present:
  "Observable_connections this observer \<noteq> None \<Longrightarrow> registerObserver observer (this, h) = (this, h)"
  by (auto simp: registerObserver_def)

section \<open>Observable: one registration and one removal\<close>

lemma registerObserver_new:
  assumes "Observable_connections target observer = None"
  shows "registerObserver observer (target, h) =
     (target\<lparr>Observable_signal :=
               (Observable_signal target)\<lparr>Signal_connections := weak_connections target @ [heap_next h]\<rparr>,
             Observable_connections := (Observable_connections target)(observer \<mapsto> Some (heap_next h))\<rparr>,
      h\<lparr>heap_slots := (heap_slots h)(heap_next h \<mapsto> observer), heap_next := Suc (heap_next h)\<rparr>)"
  using assms by (simp add: registerObserver_def connect_def make_shared_def weak_connections_def)

lemma unregisterObserver_linked:
  assumes "linked h target" "Observable_connections target observer = Some connection"
  shows "\<exists>c. connection = Some c \<and> unregisterObserver observer (target, h) =
     (target\<lparr>Observable_signal :=
               (Observable_signal target)\<lparr>Signal_connections := filter (\<lambda>w. w \<noteq> c) (weak_connections target)\<rparr>,
             Observable_connections := (Observable_connections target)(observer := None)\<rparr>,
      h\<lparr>heap_slots := (heap_slots h)(c := None)\<rparr>)"
proof -
  from assms obtain c where c: "connection = Some c"
    by (cases connection) (auto simp: linked_def)
  with assms have "heap_slots h c \<noteq> None" by (auto simp: linked_def)
  then show ?thesis
    using assms(2) c
    by (simp add: unregisterObserver_def disconnect_live release_def weak_connections_def)
qed

lemma linked_registerObserver:
  assumes "linked h target" "registerObserver observer (target, h) = (target', h')"
  shows "linked h' target'"
proof (cases "Observable_connections target observer = None")
  case False
  then show ?thesis using assms by (simp add: registerObserver_present)
next
  case True
  have fresh: "heap_next h \<notin> set (weak_connections target)"
    using assms(1) by (auto simp: linked_def)
  have t': "target' = target\<lparr>Observable_signal :=
               (Observable_signal target)\<lparr>Signal_connections := weak_connections target @ [heap_next h]\<rparr>,
             Observable_connections := (Observable_connections target)(observer \<mapsto> Some (heap_next h))\<rparr>"
    and h': "h' = h\<lparr>heap_slots := (heap_slots h)(heap_next h \<mapsto> observer), heap_next := Suc (heap_next h)\<rparr>"
    using assms(2) registerObserver_new [OF True, of h] by simp_all
  have w: "weak_connections target' = weak_connections target @ [heap_next h]"
    by (simp add: t' weak_connections_def)
  have r: "Observable_connections target' = (Observable_connections target)(observer \<mapsto> Some (heap_next h))"
    by (simp add: t')
  show ?thesis
    unfolding linked_def w r
  proof (intro conjI allI impI)
    show "distinct (weak_connections target @ [heap_next h])"
      using assms(1) fresh by (simp add: linked_def)
  next
    fix c
    have old: "c \<in> set (weak_connections target)
        \<longleftrightarrow> (\<exists>p. Observable_connections target p = Some (Some c))"
      using assms(1) by (simp add: linked_def)
    show "c \<in> set (weak_connections target @ [heap_next h]) \<longleftrightarrow>
          (\<exists>observera. ((Observable_connections target)(observer \<mapsto> Some (heap_next h))) observera = Some (Some c))"
    proof
      assume "c \<in> set (weak_connections target @ [heap_next h])"
      then consider "c = heap_next h" | p where "Observable_connections target p = Some (Some c)"
        using old by auto
      then show "\<exists>observera. ((Observable_connections target)(observer \<mapsto> Some (heap_next h))) observera = Some (Some c)"
      proof cases
        case 1
        then show ?thesis by (intro exI [of _ observer]) simp
      next
        case 2
        then have "p \<noteq> observer" using True by auto
        then show ?thesis using 2 by (intro exI [of _ p]) simp
      qed
    next
      assume "\<exists>observera. ((Observable_connections target)(observer \<mapsto> Some (heap_next h))) observera = Some (Some c)"
      then show "c \<in> set (weak_connections target @ [heap_next h])"
        using old by (auto split: if_splits)
    qed
  next
    fix observera
    show "((Observable_connections target)(observer \<mapsto> Some (heap_next h))) observera \<noteq> Some None"
      using assms(1) by (simp add: linked_def)
  next
    fix observera c
    assume "((Observable_connections target)(observer \<mapsto> Some (heap_next h))) observera = Some (Some c)"
    then show "heap_slots h' c = Some observera" "c < heap_next h'"
      using assms(1) by (auto simp: linked_def h' less_Suc_eq split: if_splits)
  qed
qed

lemma linked_heap_grows:
  assumes "linked h target"
  shows "linked (h\<lparr>heap_slots := (heap_slots h)(heap_next h \<mapsto> x), heap_next := Suc (heap_next h)\<rparr>) target"
  using assms by (auto simp: linked_def less_Suc_eq)

lemma linked_registerObserver_other:
  assumes "linked h other" "registerObserver observer (target, h) = (target', h')"
  shows "linked h' other"
proof (cases "Observable_connections target observer = None")
  case False
  then show ?thesis using assms by (simp add: registerObserver_present)
next
  case True
  then have "h' = h\<lparr>heap_slots := (heap_slots h)(heap_next h \<mapsto> observer), heap_next := Suc (heap_next h)\<rparr>"
    using assms(2) registerObserver_new [OF True, of h] by simp
  then show ?thesis using linked_heap_grows [OF assms(1)] by simp
qed

lemma weak_registerObserver:
  assumes "registerObserver observer (target, h) = (target', h')"
  shows "set (weak_connections target') \<subseteq> insert (heap_next h) (set (weak_connections target))"
proof (cases "Observable_connections target observer = None")
  case False
  then show ?thesis using assms by (auto simp: registerObserver_present)
next
  case True
  then show ?thesis
    using assms registerObserver_new [OF True, of h] by (auto simp: weak_connections_def)
qed

lemma linked_unregisterObserver:
  assumes "linked h target" "unregisterObserver observer (target, h) = (target', h')"
  shows "linked h' target'"
proof (cases "Observable_connections target observer")
  case None
  then show ?thesis using assms by (simp add: unregisterObserver_absent)
next
  case (Some connection)
  from unregisterObserver_linked [OF assms(1) Some] assms(2)
  obtain c where c: "connection = Some c"
    and t': "target' = target\<lparr>Observable_signal :=
               (Observable_signal target)\<lparr>Signal_connections := filter (\<lambda>w. w \<noteq> c) (weak_connections target)\<rparr>,
             Observable_connections := (Observable_connections target)(observer := None)\<rparr>"
    and h': "h' = h\<lparr>heap_slots := (heap_slots h)(c := None)\<rparr>"
    by auto
  have w: "weak_connections target' = filter (\<lambda>w. w \<noteq> c) (weak_connections target)"
    by (simp add: t' weak_connections_def)
  have r: "Observable_connections target' = (Observable_connections target)(observer := None)"
    by (simp add: t')
  have own: "heap_slots h c = Some observer" using assms(1) Some c by (auto simp: linked_def)
  have other: "Observable_connections target p = Some (Some c) \<Longrightarrow> p = observer" for p
    using assms(1) own by (auto simp: linked_def)
  show ?thesis
    unfolding linked_def w r
  proof (intro conjI allI impI)
    show "distinct (filter (\<lambda>w. w \<noteq> c) (weak_connections target))"
      using assms(1) by (simp add: linked_def)
  next
    fix d
    have old: "d \<in> set (weak_connections target)
        \<longleftrightarrow> (\<exists>p. Observable_connections target p = Some (Some d))"
      using assms(1) by (simp add: linked_def)
    show "d \<in> set (filter (\<lambda>w. w \<noteq> c) (weak_connections target)) \<longleftrightarrow>
          (\<exists>observera. ((Observable_connections target)(observer := None)) observera = Some (Some d))"
    proof
      assume "d \<in> set (filter (\<lambda>w. w \<noteq> c) (weak_connections target))"
      then obtain p where p: "Observable_connections target p = Some (Some d)" and "d \<noteq> c"
        using old by auto
      then have "p \<noteq> observer" using Some c by auto
      then show "\<exists>observera. ((Observable_connections target)(observer := None)) observera = Some (Some d)"
        using p by (intro exI [of _ p]) simp
    next
      assume "\<exists>observera. ((Observable_connections target)(observer := None)) observera = Some (Some d)"
      then obtain p where p: "p \<noteq> observer" "Observable_connections target p = Some (Some d)"
        by (auto split: if_splits)
      then have "d \<noteq> c" using other by auto
      then show "d \<in> set (filter (\<lambda>w. w \<noteq> c) (weak_connections target))"
        using old p by auto
    qed
  next
    fix observera
    show "((Observable_connections target)(observer := None)) observera \<noteq> Some None"
      using assms(1) by (simp add: linked_def)
  next
    fix observera d
    assume a: "((Observable_connections target)(observer := None)) observera = Some (Some d)"
    then have "observera \<noteq> observer" "Observable_connections target observera = Some (Some d)"
      by (auto split: if_splits)
    then have "d \<noteq> c" using other by auto
    moreover have "heap_slots h d = Some observera \<and> d < heap_next h"
      using assms(1) \<open>Observable_connections target observera = Some (Some d)\<close>
      by (simp add: linked_def)
    ultimately show "heap_slots h' d = Some observera" "d < heap_next h'"
      by (simp_all add: h')
  qed
qed

lemma linked_unregisterObserver_other:
  assumes "linked h other" "linked h target"
    and "set (weak_connections other) \<inter> set (weak_connections target) = {}"
    and "unregisterObserver observer (target, h) = (target', h')"
  shows "linked h' other"
proof (cases "Observable_connections target observer")
  case None
  then show ?thesis using assms by (simp add: unregisterObserver_absent)
next
  case (Some connection)
  from unregisterObserver_linked [OF assms(2) Some] assms(4)
  obtain c where c: "connection = Some c" and h': "h' = h\<lparr>heap_slots := (heap_slots h)(c := None)\<rparr>"
    by auto
  have "c \<in> set (weak_connections target)" using assms(2) Some c by (auto simp: linked_def)
  then have "c \<notin> set (weak_connections other)" using assms(3) by auto
  then have n: "Observable_connections other p \<noteq> Some (Some c)" for p
    using assms(1) by (auto simp: linked_def)
  have "heap_slots h' d = Some p \<and> d < heap_next h'"
    if "Observable_connections other p = Some (Some d)" for p d
  proof -
    have "d \<noteq> c" using n that by auto
    moreover have "heap_slots h d = Some p \<and> d < heap_next h"
      using assms(1) that by (simp add: linked_def)
    ultimately show ?thesis by (simp add: h')
  qed
  then show ?thesis using assms(1) by (simp add: linked_def)
qed

lemma weak_unregisterObserver:
  assumes "unregisterObserver observer (target, h) = (target', h')"
  shows "set (weak_connections target') \<subseteq> set (weak_connections target)"
  using assms
  by (auto simp: unregisterObserver_def disconnect_def weak_connections_def split: option.splits)

section \<open>The store stays connected\<close>

lemma connectedI:
  assumes "\<And>observable target. store_observables st observable = Some target
              \<Longrightarrow> linked (store_heap st) target"
    and "\<And>a b s t c. store_observables st a = Some s \<Longrightarrow> store_observables st b = Some t \<Longrightarrow>
            c \<in> set (weak_connections s) \<Longrightarrow> c \<in> set (weak_connections t) \<Longrightarrow> a = b"
  shows "connected st"
  unfolding connected_def using assms by blast

lemma connected_linked:
  "connected st \<Longrightarrow> store_observables st observable = Some target \<Longrightarrow> linked (store_heap st) target"
  by (simp add: connected_def)

lemma connected_disjoint:
  "connected st \<Longrightarrow> store_observables st a = Some s \<Longrightarrow> store_observables st b = Some t \<Longrightarrow>
     c \<in> set (weak_connections s) \<Longrightarrow> c \<in> set (weak_connections t) \<Longrightarrow> a = b"
  unfolding connected_def by blast

lemma linked_below: "linked h target \<Longrightarrow> c \<in> set (weak_connections target) \<Longrightarrow> c < heap_next h"
  by (auto simp: linked_def)

lemma connected_register_step:
  assumes "connected st" "store_observables st observable = Some target"
    and "registerObserver observer (target, store_heap st) = (target', h')"
  shows "connected (st\<lparr>store_observables := (store_observables st)(observable \<mapsto> target'),
                       store_heap := h'\<rparr>)"
proof (rule connectedI)
  fix b t
  assume "store_observables (st\<lparr>store_observables := (store_observables st)(observable \<mapsto> target'),
                       store_heap := h'\<rparr>) b = Some t"
  then consider "b = observable" "t = target'" | "b \<noteq> observable" "store_observables st b = Some t"
    by (auto split: if_splits)
  then show "linked (store_heap (st\<lparr>store_observables := (store_observables st)(observable \<mapsto> target'),
                       store_heap := h'\<rparr>)) t"
  proof cases
    case 1
    then show ?thesis
      using linked_registerObserver [OF connected_linked [OF assms(1,2)] assms(3)] by simp
  next
    case 2
    then show ?thesis
      using linked_registerObserver_other [OF connected_linked [OF assms(1) 2(2)] assms(3)] by simp
  qed
next
  fix a b s t c
  assume a: "store_observables (st\<lparr>store_observables := (store_observables st)(observable \<mapsto> target'),
                       store_heap := h'\<rparr>) a = Some s"
    and b: "store_observables (st\<lparr>store_observables := (store_observables st)(observable \<mapsto> target'),
                       store_heap := h'\<rparr>) b = Some t"
    and cs: "c \<in> set (weak_connections s)" and ct: "c \<in> set (weak_connections t)"
  have new: "c \<in> set (weak_connections target') \<Longrightarrow>
      c = heap_next (store_heap st) \<or> c \<in> set (weak_connections target)" for c
    using weak_registerObserver [OF assms(3)] by auto
  have old: "store_observables st x = Some u \<Longrightarrow> c \<in> set (weak_connections u) \<Longrightarrow>
      c \<noteq> heap_next (store_heap st)" for x u c
    using linked_below [OF connected_linked [OF assms(1)], of x u c] by auto
  show "a = b"
  proof (cases "a = observable"; cases "b = observable")
    assume "a = observable" "b = observable"
    then show ?thesis by simp
  next
    assume ab: "a = observable" "b \<noteq> observable"
    then have s: "s = target'" and t: "store_observables st b = Some t" using a b by simp_all
    from new [of c] cs s old [OF t ct] have "c \<in> set (weak_connections target)" by auto
    then show ?thesis using connected_disjoint [OF assms(1,2) t _ ct] ab by simp
  next
    assume ab: "a \<noteq> observable" "b = observable"
    then have t: "t = target'" and s: "store_observables st a = Some s" using a b by simp_all
    from new [of c] ct t old [OF s cs] have "c \<in> set (weak_connections target)" by auto
    then show ?thesis using connected_disjoint [OF assms(1) s assms(2) cs] ab by simp
  next
    assume ab: "a \<noteq> observable" "b \<noteq> observable"
    then have "store_observables st a = Some s" "store_observables st b = Some t"
      using a b by simp_all
    then show ?thesis using connected_disjoint [OF assms(1) _ _ cs ct] by simp
  qed
qed

lemma connected_unregister_step:
  assumes "connected st" "store_observables st observable = Some target"
    and "unregisterObserver observer (target, store_heap st) = (target', h')"
  shows "connected (st\<lparr>store_observables := (store_observables st)(observable \<mapsto> target'),
                       store_heap := h'\<rparr>)"
proof (rule connectedI)
  fix b t
  assume "store_observables (st\<lparr>store_observables := (store_observables st)(observable \<mapsto> target'),
                       store_heap := h'\<rparr>) b = Some t"
  then consider "b = observable" "t = target'" | "b \<noteq> observable" "store_observables st b = Some t"
    by (auto split: if_splits)
  then show "linked (store_heap (st\<lparr>store_observables := (store_observables st)(observable \<mapsto> target'),
                       store_heap := h'\<rparr>)) t"
  proof cases
    case 1
    then show ?thesis
      using linked_unregisterObserver [OF connected_linked [OF assms(1,2)] assms(3)] by simp
  next
    case 2
    have "set (weak_connections t) \<inter> set (weak_connections target) = {}"
      using connected_disjoint [OF assms(1) 2(2) assms(2)] 2(1) by auto
    then show ?thesis
      using linked_unregisterObserver_other [OF connected_linked [OF assms(1) 2(2)]
          connected_linked [OF assms(1,2)] _ assms(3)] by simp
  qed
next
  fix a b s t c
  assume a: "store_observables (st\<lparr>store_observables := (store_observables st)(observable \<mapsto> target'),
                       store_heap := h'\<rparr>) a = Some s"
    and b: "store_observables (st\<lparr>store_observables := (store_observables st)(observable \<mapsto> target'),
                       store_heap := h'\<rparr>) b = Some t"
    and cs: "c \<in> set (weak_connections s)" and ct: "c \<in> set (weak_connections t)"
  have new: "c \<in> set (weak_connections target') \<Longrightarrow> c \<in> set (weak_connections target)" for c
    using weak_unregisterObserver [OF assms(3)] by auto
  show "a = b"
  proof (cases "a = observable"; cases "b = observable")
    assume "a = observable" "b = observable"
    then show ?thesis by simp
  next
    assume ab: "a = observable" "b \<noteq> observable"
    then have s: "s = target'" and t: "store_observables st b = Some t" using a b by simp_all
    from new [of c] cs s have "c \<in> set (weak_connections target)" by auto
    then show ?thesis using connected_disjoint [OF assms(1,2) t _ ct] ab by simp
  next
    assume ab: "a \<noteq> observable" "b = observable"
    then have t: "t = target'" and s: "store_observables st a = Some s" using a b by simp_all
    from new [of c] ct t have "c \<in> set (weak_connections target)" by auto
    then show ?thesis using connected_disjoint [OF assms(1) s assms(2) cs] ab by simp
  next
    assume ab: "a \<noteq> observable" "b \<noteq> observable"
    then have "store_observables st a = Some s" "store_observables st b = Some t"
      using a b by simp_all
    then show ?thesis using connected_disjoint [OF assms(1) _ _ cs ct] by simp
  qed
qed

lemma connected_observers_irrelevant:
  "connected (st\<lparr>store_observers := x\<rparr>) = connected st"
  by (simp add: connected_def)

lemma registerWith_Some:
  assumes "registerWith observer observable st = Some st'"
  obtains self target target' h' where
    "store_observers st observer = Some self"
    "store_observables st observable = Some target"
    "registerObserver observer (target, store_heap st) = (target', h')"
    "st' = st\<lparr>store_observables := (store_observables st)(observable \<mapsto> target'),
              store_heap := h',
              store_observers := (store_observers st)(observer \<mapsto>
                self\<lparr>Observer_observables := set_insert observable (Observer_observables self)\<rparr>)\<rparr>"
proof -
  from assms obtain self where s: "store_observers st observer = Some self"
    by (cases "store_observers st observer") (simp_all add: registerWith_def)
  from assms s obtain target where t: "store_observables st observable = Some target"
    by (cases "store_observables st observable") (simp_all add: registerWith_def)
  obtain target' h' where r: "registerObserver observer (target, store_heap st) = (target', h')"
    by (cases "registerObserver observer (target, store_heap st)")
  from assms s t r have "st' = st\<lparr>store_observables := (store_observables st)(observable \<mapsto> target'),
              store_heap := h',
              store_observers := (store_observers st)(observer \<mapsto>
                self\<lparr>Observer_observables := set_insert observable (Observer_observables self)\<rparr>)\<rparr>"
    by (simp add: registerWith_def)
  with s t r show ?thesis by (rule that)
qed

lemma unregisterWith_Some:
  assumes "unregisterWith observer observable st = Some st'"
  obtains self target target' h' where
    "store_observers st observer = Some self"
    "store_observables st observable = Some target"
    "unregisterObserver observer (target, store_heap st) = (target', h')"
    "st' = st\<lparr>store_observables := (store_observables st)(observable \<mapsto> target'),
              store_heap := h',
              store_observers := (store_observers st)(observer \<mapsto>
                self\<lparr>Observer_observables := set_erase observable (Observer_observables self)\<rparr>)\<rparr>"
proof -
  from assms obtain self where s: "store_observers st observer = Some self"
    by (cases "store_observers st observer") (simp_all add: unregisterWith_def)
  from assms s obtain target where t: "store_observables st observable = Some target"
    by (cases "store_observables st observable") (simp_all add: unregisterWith_def)
  obtain target' h' where r: "unregisterObserver observer (target, store_heap st) = (target', h')"
    by (cases "unregisterObserver observer (target, store_heap st)")
  from assms s t r have "st' = st\<lparr>store_observables := (store_observables st)(observable \<mapsto> target'),
              store_heap := h',
              store_observers := (store_observers st)(observer \<mapsto>
                self\<lparr>Observer_observables := set_erase observable (Observer_observables self)\<rparr>)\<rparr>"
    by (simp add: unregisterWith_def)
  with s t r show ?thesis by (rule that)
qed

lemma unregister_all_Cons:
  assumes "unregister_all observer (b # bs) st = Some st'"
  obtains target target' h' where
    "store_observables st b = Some target"
    "unregisterObserver observer (target, store_heap st) = (target', h')"
    "unregister_all observer bs
        (st\<lparr>store_observables := (store_observables st)(b \<mapsto> target'), store_heap := h'\<rparr>) = Some st'"
proof -
  from assms obtain target where t: "store_observables st b = Some target"
    by (cases "store_observables st b") simp_all
  obtain target' h' where r: "unregisterObserver observer (target, store_heap st) = (target', h')"
    by (cases "unregisterObserver observer (target, store_heap st)")
  from assms t r have "unregister_all observer bs
        (st\<lparr>store_observables := (store_observables st)(b \<mapsto> target'), store_heap := h'\<rparr>) = Some st'"
    by simp
  with t r show ?thesis by (rule that)
qed

lemma destroy_Observer_Some:
  assumes "destroy_Observer observer st = Some st'"
  obtains self st1 where
    "store_observers st observer = Some self"
    "unregister_all observer (Observer_observables self) st = Some st1"
    "st' = st1\<lparr>store_observers := (store_observers st1)(observer := None)\<rparr>"
proof -
  from assms obtain self where s: "store_observers st observer = Some self"
    by (cases "store_observers st observer") (simp_all add: destroy_Observer_def)
  from assms s obtain st1 where u: "unregister_all observer (Observer_observables self) st = Some st1"
    by (cases "unregister_all observer (Observer_observables self) st")
      (simp_all add: destroy_Observer_def)
  from assms s u have "st' = st1\<lparr>store_observers := (store_observers st1)(observer := None)\<rparr>"
    by (simp add: destroy_Observer_def)
  with s u show ?thesis by (rule that)
qed

lemma connected_registerWith:
  assumes "connected st" "registerWith observer observable st = Some st'"
  shows "connected st'"
proof -
  from assms(2) obtain self target target' h' where
    "store_observers st observer = Some self"
    and t: "store_observables st observable = Some target"
    and r: "registerObserver observer (target, store_heap st) = (target', h')"
    and st': "st' = st\<lparr>store_observables := (store_observables st)(observable \<mapsto> target'),
                       store_heap := h',
                       store_observers := (store_observers st)(observer \<mapsto>
                         self\<lparr>Observer_observables := set_insert observable (Observer_observables self)\<rparr>)\<rparr>"
    by (rule registerWith_Some)
  show ?thesis
    unfolding st' connected_observers_irrelevant
    by (rule connected_register_step [OF assms(1) t r])
qed

lemma connected_unregisterWith:
  assumes "connected st" "unregisterWith observer observable st = Some st'"
  shows "connected st'"
proof -
  from assms(2) obtain self target target' h' where
    "store_observers st observer = Some self"
    and t: "store_observables st observable = Some target"
    and r: "unregisterObserver observer (target, store_heap st) = (target', h')"
    and st': "st' = st\<lparr>store_observables := (store_observables st)(observable \<mapsto> target'),
                       store_heap := h',
                       store_observers := (store_observers st)(observer \<mapsto>
                         self\<lparr>Observer_observables := set_erase observable (Observer_observables self)\<rparr>)\<rparr>"
    by (rule unregisterWith_Some)
  show ?thesis
    unfolding st' connected_observers_irrelevant
    by (rule connected_unregister_step [OF assms(1) t r])
qed

lemma connected_unregister_all:
  assumes "connected st" "unregister_all observer bs st = Some st'"
  shows "connected st'"
  using assms
proof (induction bs arbitrary: st)
  case Nil
  then show ?case by simp
next
  case (Cons b bs)
  from Cons.prems(2) obtain target target' h' where
    t: "store_observables st b = Some target"
    and r: "unregisterObserver observer (target, store_heap st) = (target', h')"
    and rest: "unregister_all observer bs
        (st\<lparr>store_observables := (store_observables st)(b \<mapsto> target'), store_heap := h'\<rparr>) = Some st'"
    by (rule unregister_all_Cons)
  show ?case
    by (rule Cons.IH [OF connected_unregister_step [OF Cons.prems(1) t r] rest])
qed

lemma connected_destroy_Observer:
  assumes "connected st" "destroy_Observer observer st = Some st'"
  shows "connected st'"
proof -
  from assms(2) obtain self st1 where
    "store_observers st observer = Some self"
    and u: "unregister_all observer (Observer_observables self) st = Some st1"
    and st': "st' = st1\<lparr>store_observers := (store_observers st1)(observer := None)\<rparr>"
    by (rule destroy_Observer_Some)
  show ?thesis
    unfolding st' connected_observers_irrelevant
    by (rule connected_unregister_all [OF assms(1) u])
qed

lemma connected_exec: "connected st \<Longrightarrow> exec c st = Some st' \<Longrightarrow> connected st'"
proof (cases c)
  case (RegisterWith p b)
  assume "connected st" "exec c st = Some st'"
  then show ?thesis using RegisterWith connected_registerWith [of st p b st'] by simp
next
  case (UnregisterWith p b)
  assume "connected st" "exec c st = Some st'"
  then show ?thesis using UnregisterWith connected_unregisterWith [of st p b st'] by simp
next
  case (DestroyObserver p)
  assume "connected st" "exec c st = Some st'"
  then show ?thesis using DestroyObserver connected_destroy_Observer [of st p st'] by simp
qed

lemma connected_run: "connected st \<Longrightarrow> run cs st = Some st' \<Longrightarrow> connected st'"
proof (induction cs arbitrary: st)
  case Nil
  then show ?case by simp
next
  case (Cons c cs)
  from Cons.prems(2) obtain st1 where e: "exec c st = Some st1" and r: "run cs st1 = Some st'"
    by (cases "exec c st") simp_all
  show ?case by (rule Cons.IH [OF connected_exec [OF Cons.prems(1) e] r])
qed

section \<open>The store stays mirrored\<close>

lemma set_set_insert: "set (set_insert x xs) = insert x (set xs)"
  by (simp add: set_insert_def insert_absorb set_insort_key)

lemma set_set_erase: "set (set_erase x xs) = set xs - {x}"
  by (simp add: set_erase_def)

lemma registerObserver_entries:
  assumes "registerObserver observer (target, h) = (target', h')"
  shows "Observable_connections target' p \<noteq> None
         \<longleftrightarrow> p = observer \<or> Observable_connections target p \<noteq> None"
proof (cases "Observable_connections target observer = None")
  case True
  then show ?thesis using assms registerObserver_new [OF True, of h] by auto
next
  case False
  then show ?thesis using assms by (auto simp: registerObserver_present)
qed

lemma unregisterObserver_entries:
  assumes "unregisterObserver observer (target, h) = (target', h')"
  shows "Observable_connections target' p \<noteq> None
         \<longleftrightarrow> p \<noteq> observer \<and> Observable_connections target p \<noteq> None"
proof (cases "Observable_connections target observer")
  case None
  then show ?thesis using assms by (auto simp: unregisterObserver_absent)
next
  case (Some connection)
  then have "Observable_connections target' = (Observable_connections target)(observer := None)"
    using assms by (auto simp: unregisterObserver_def)
  then show ?thesis by simp
qed

lemma registered_update:
  "registered (st\<lparr>store_observables := (store_observables st)(b \<mapsto> target'), store_heap := h'\<rparr>) a p
   \<longleftrightarrow> (if a = b then Observable_connections target' p \<noteq> None else registered st a p)"
  by (simp add: registered_def)

lemma registered_observers_irrelevant:
  "registered (st\<lparr>store_observers := x\<rparr>) a p = registered st a p"
  by (simp add: registered_def)

lemma tracks_update:
  "tracks (st\<lparr>store_observers := (store_observers st)(q \<mapsto> self')\<rparr>) p b
   \<longleftrightarrow> (if p = q then b \<in> set (Observer_observables self') else tracks st p b)"
  by (simp add: tracks_def)

lemma tracks_remove:
  "tracks (st\<lparr>store_observers := (store_observers st)(q := None)\<rparr>) p b
   \<longleftrightarrow> p \<noteq> q \<and> tracks st p b"
  by (auto simp: tracks_def)

lemma tracks_observables_irrelevant:
  "tracks (st\<lparr>store_observables := x, store_heap := y\<rparr>) p b = tracks st p b"
  by (simp add: tracks_def)

lemma registered_registerWith:
  assumes "registerWith observer observable st = Some st'"
  shows "registered st' b p \<longleftrightarrow> (b = observable \<and> p = observer) \<or> registered st b p"
proof -
  from assms obtain self target target' h' where
    s: "store_observers st observer = Some self"
    and t: "store_observables st observable = Some target"
    and r: "registerObserver observer (target, store_heap st) = (target', h')"
    and st': "st' = st\<lparr>store_observables := (store_observables st)(observable \<mapsto> target'),
                       store_heap := h',
                       store_observers := (store_observers st)(observer \<mapsto>
                         self\<lparr>Observer_observables := set_insert observable (Observer_observables self)\<rparr>)\<rparr>"
    by (rule registerWith_Some)
  have "registered st observable p \<longleftrightarrow> Observable_connections target p \<noteq> None" for p
    using t by (simp add: registered_def)
  then show ?thesis
    unfolding st' registered_observers_irrelevant registered_update
    using registerObserver_entries [OF r, of p] by auto
qed

lemma tracks_registerWith:
  assumes "registerWith observer observable st = Some st'"
  shows "tracks st' p b \<longleftrightarrow> (b = observable \<and> p = observer) \<or> tracks st p b"
proof -
  from assms obtain self target target' h' where
    s: "store_observers st observer = Some self"
    and t: "store_observables st observable = Some target"
    and r: "registerObserver observer (target, store_heap st) = (target', h')"
    and st': "st' = st\<lparr>store_observables := (store_observables st)(observable \<mapsto> target'),
                       store_heap := h',
                       store_observers := (store_observers st)(observer \<mapsto>
                         self\<lparr>Observer_observables := set_insert observable (Observer_observables self)\<rparr>)\<rparr>"
    by (rule registerWith_Some)
  have "tracks st observer b \<longleftrightarrow> b \<in> set (Observer_observables self)" for b
    using s by (simp add: tracks_def)
  then show ?thesis
    unfolding st' by (auto simp: tracks_def set_set_insert)
qed

lemma registered_unregisterWith:
  assumes "unregisterWith observer observable st = Some st'"
  shows "registered st' b p \<longleftrightarrow> \<not> (b = observable \<and> p = observer) \<and> registered st b p"
proof -
  from assms obtain self target target' h' where
    s: "store_observers st observer = Some self"
    and t: "store_observables st observable = Some target"
    and r: "unregisterObserver observer (target, store_heap st) = (target', h')"
    and st': "st' = st\<lparr>store_observables := (store_observables st)(observable \<mapsto> target'),
                       store_heap := h',
                       store_observers := (store_observers st)(observer \<mapsto>
                         self\<lparr>Observer_observables := set_erase observable (Observer_observables self)\<rparr>)\<rparr>"
    by (rule unregisterWith_Some)
  have "registered st observable p \<longleftrightarrow> Observable_connections target p \<noteq> None" for p
    using t by (simp add: registered_def)
  then show ?thesis
    unfolding st' registered_observers_irrelevant registered_update
    using unregisterObserver_entries [OF r, of p] by auto
qed

lemma tracks_unregisterWith:
  assumes "unregisterWith observer observable st = Some st'"
  shows "tracks st' p b \<longleftrightarrow> \<not> (b = observable \<and> p = observer) \<and> tracks st p b"
proof -
  from assms obtain self target target' h' where
    s: "store_observers st observer = Some self"
    and t: "store_observables st observable = Some target"
    and r: "unregisterObserver observer (target, store_heap st) = (target', h')"
    and st': "st' = st\<lparr>store_observables := (store_observables st)(observable \<mapsto> target'),
                       store_heap := h',
                       store_observers := (store_observers st)(observer \<mapsto>
                         self\<lparr>Observer_observables := set_erase observable (Observer_observables self)\<rparr>)\<rparr>"
    by (rule unregisterWith_Some)
  have "tracks st observer b \<longleftrightarrow> b \<in> set (Observer_observables self)" for b
    using s by (simp add: tracks_def)
  then show ?thesis
    unfolding st' by (auto simp: tracks_def set_set_erase)
qed

lemma unregister_all_effect:
  assumes "unregister_all observer bs st = Some st'"
  shows "store_observers st' = store_observers st \<and>
         (\<forall>b p. registered st' b p \<longleftrightarrow> \<not> (p = observer \<and> b \<in> set bs) \<and> registered st b p)"
  using assms
proof (induction bs arbitrary: st)
  case Nil
  then show ?case by simp
next
  case (Cons a bs)
  from Cons.prems obtain target target' h' where
    t: "store_observables st a = Some target"
    and r: "unregisterObserver observer (target, store_heap st) = (target', h')"
    and rest: "unregister_all observer bs
        (st\<lparr>store_observables := (store_observables st)(a \<mapsto> target'), store_heap := h'\<rparr>) = Some st'"
    by (rule unregister_all_Cons)
  let ?st1 = "st\<lparr>store_observables := (store_observables st)(a \<mapsto> target'), store_heap := h'\<rparr>"
  have one: "registered ?st1 b p \<longleftrightarrow> \<not> (p = observer \<and> b = a) \<and> registered st b p" for b p
  proof -
    have "registered st a p \<longleftrightarrow> Observable_connections target p \<noteq> None"
      using t by (simp add: registered_def)
    then show ?thesis
      unfolding registered_update using unregisterObserver_entries [OF r, of p] by auto
  qed
  from Cons.IH [OF rest] have
    o: "store_observers st' = store_observers ?st1"
    and g: "\<And>b p. registered st' b p \<longleftrightarrow> \<not> (p = observer \<and> b \<in> set bs) \<and> registered ?st1 b p"
    by simp_all
  show ?case
  proof (intro conjI allI)
    show "store_observers st' = store_observers st" using o by simp
  next
    fix b p
    show "registered st' b p \<longleftrightarrow> \<not> (p = observer \<and> b \<in> set (a # bs)) \<and> registered st b p"
      unfolding g one by auto
  qed
qed

lemma unregister_all_succeeds:
  assumes "\<forall>b \<in> set bs. store_observables st b \<noteq> None"
  shows "\<exists>st'. unregister_all observer bs st = Some st'"
  using assms
proof (induction bs arbitrary: st)
  case Nil
  then show ?case by simp
next
  case (Cons a bs)
  then obtain target where t: "store_observables st a = Some target" by auto
  obtain target' h' where r: "unregisterObserver observer (target, store_heap st) = (target', h')"
    by (cases "unregisterObserver observer (target, store_heap st)")
  let ?st1 = "st\<lparr>store_observables := (store_observables st)(a \<mapsto> target'), store_heap := h'\<rparr>"
  have "\<forall>b \<in> set bs. store_observables ?st1 b \<noteq> None" using Cons.prems by simp
  from Cons.IH [OF this] show ?case using t r by simp
qed

lemma mirror_registerWith:
  assumes "mirror st" "registerWith observer observable st = Some st'"
  shows "mirror st'"
  using assms(1) unfolding mirror_def
  by (simp add: registered_registerWith [OF assms(2)] tracks_registerWith [OF assms(2)])

lemma mirror_unregisterWith:
  assumes "mirror st" "unregisterWith observer observable st = Some st'"
  shows "mirror st'"
  using assms(1) unfolding mirror_def
  by (simp add: registered_unregisterWith [OF assms(2)] tracks_unregisterWith [OF assms(2)])

lemma destroy_Observer_effect:
  assumes "mirror st" "destroy_Observer observer st = Some st'"
  shows "store_observers st' = (store_observers st)(observer := None)"
    and "registered st' b p \<longleftrightarrow> p \<noteq> observer \<and> registered st b p"
    and "tracks st' p b \<longleftrightarrow> p \<noteq> observer \<and> tracks st p b"
proof -
  from assms(2) obtain self st1 where
    s: "store_observers st observer = Some self"
    and u: "unregister_all observer (Observer_observables self) st = Some st1"
    and st': "st' = st1\<lparr>store_observers := (store_observers st1)(observer := None)\<rparr>"
    by (rule destroy_Observer_Some)
  from unregister_all_effect [OF u] have
    o: "store_observers st1 = store_observers st"
    and g: "\<And>b p. registered st1 b p \<longleftrightarrow>
              \<not> (p = observer \<and> b \<in> set (Observer_observables self)) \<and> registered st b p"
    by simp_all
  show "store_observers st' = (store_observers st)(observer := None)"
    by (simp add: st' o)
  have m: "registered st b observer \<longleftrightarrow> b \<in> set (Observer_observables self)" for b
  proof -
    have "tracks st observer b \<longleftrightarrow> registered st b observer"
      using assms(1) by (simp add: mirror_def)
    then show ?thesis using s by (simp add: tracks_def)
  qed
  show "registered st' b p \<longleftrightarrow> p \<noteq> observer \<and> registered st b p"
    unfolding st' registered_observers_irrelevant g using m [of b] by auto
  show "tracks st' p b \<longleftrightarrow> p \<noteq> observer \<and> tracks st p b"
    unfolding st' tracks_remove using o by (simp add: tracks_def)
qed

lemma mirror_destroy_Observer:
  assumes "mirror st" "destroy_Observer observer st = Some st'"
  shows "mirror st'"
  using assms(1) unfolding mirror_def
  by (simp add: destroy_Observer_effect(2,3) [OF assms])

lemma mirror_exec: "mirror st \<Longrightarrow> exec c st = Some st' \<Longrightarrow> mirror st'"
proof (cases c)
  case (RegisterWith p b)
  assume "mirror st" "exec c st = Some st'"
  then show ?thesis using RegisterWith mirror_registerWith [of st p b st'] by simp
next
  case (UnregisterWith p b)
  assume "mirror st" "exec c st = Some st'"
  then show ?thesis using UnregisterWith mirror_unregisterWith [of st p b st'] by simp
next
  case (DestroyObserver p)
  assume "mirror st" "exec c st = Some st'"
  then show ?thesis using DestroyObserver mirror_destroy_Observer [of st p st'] by simp
qed

lemma mirror_run: "mirror st \<Longrightarrow> run cs st = Some st' \<Longrightarrow> mirror st'"
proof (induction cs arbitrary: st)
  case Nil
  then show ?case by simp
next
  case (Cons c cs)
  from Cons.prems(2) obtain st1 where e: "exec c st = Some st1" and r: "run cs st1 = Some st'"
    by (cases "exec c st") simp_all
  show ?case by (rule Cons.IH [OF mirror_exec [OF Cons.prems(1) e] r])
qed

lemma destroy_Observer_succeeds:
  assumes "mirror st" "store_observers st observer = Some self"
  shows "\<exists>st'. destroy_Observer observer st = Some st'"
proof -
  have "\<forall>b \<in> set (Observer_observables self). store_observables st b \<noteq> None"
  proof
    fix b
    assume "b \<in> set (Observer_observables self)"
    then have "tracks st observer b" using assms(2) by (simp add: tracks_def)
    then have "registered st b observer" using assms(1) by (simp add: mirror_def)
    then show "store_observables st b \<noteq> None" by (auto simp: registered_def)
  qed
  from unregister_all_succeeds [OF this, of observer] show ?thesis
    using assms(2) by (auto simp: destroy_Observer_def)
qed

lemma registerWith_succeeds:
  "store_observers st observer = Some self \<Longrightarrow> store_observables st observable = Some target \<Longrightarrow>
     \<exists>st'. registerWith observer observable st = Some st'"
  by (simp add: registerWith_def split: prod.splits)

lemma unregisterWith_succeeds:
  "store_observers st observer = Some self \<Longrightarrow> store_observables st observable = Some target \<Longrightarrow>
     \<exists>st'. unregisterWith observer observable st = Some st'"
  by (simp add: unregisterWith_def split: prod.splits)

section \<open>Notification\<close>

lemma unsubscribed_mirror: "unsubscribed st \<Longrightarrow> mirror st"
  by (auto simp: unsubscribed_def mirror_def tracks_def registered_def)

lemma unsubscribed_connected: "unsubscribed st \<Longrightarrow> connected st"
  by (auto simp: unsubscribed_def connected_def linked_def)

lemma notifyObservers_eq:
  "notifyObservers onNotify args (target, h, u) =
     (target\<lparr>Observable_signal := (Observable_signal target)
               \<lparr>Signal_connections := filter (\<lambda>w. heap_slots h w \<noteq> None) (weak_connections target)\<rparr>\<rparr>,
      fold (\<lambda>p. onNotify p args) (subscribers target h) u)"
  by (simp add: notifyObservers_def emit_outside subscribers_def weak_connections_def)

lemma linked_all_live:
  assumes "linked h target"
  shows "filter (\<lambda>w. heap_slots h w \<noteq> None) (weak_connections target) = weak_connections target"
proof -
  have "heap_slots h w \<noteq> None" if "w \<in> set (weak_connections target)" for w
    using assms that by (auto simp: linked_def)
  then show ?thesis by (simp add: filter_id_conv)
qed

lemma notifyObservers_linked:
  assumes "linked h target"
  shows "notifyObservers onNotify args (target, h, u) =
           (target, fold (\<lambda>p. onNotify p args) (subscribers target h) u)"
  unfolding notifyObservers_eq linked_all_live [OF assms]
  by (simp add: weak_connections_def)

lemma notify_connected:
  assumes "connected st" "store_observables st b = Some target"
  shows "notify onNotify b args (st, u) =
           Some (st, fold (\<lambda>p. onNotify p args) (subscribers target (store_heap st)) u)"
proof -
  have "st\<lparr>store_observables := (store_observables st)(b \<mapsto> target)\<rparr> = st"
    using assms(2) by (simp add: map_upd_triv)
  then show ?thesis
    using assms(2)
    by (simp add: notify_def notifyObservers_linked [OF connected_linked [OF assms]])
qed

lemma set_map_filter: "set (List.map_filter f xs) = {y. \<exists>x \<in> set xs. f x = Some y}"
  by (induction xs) (auto split: option.splits)

lemma subscribers_registered:
  assumes "linked h target" "p \<in> set (subscribers target h)"
  shows "Observable_connections target p \<noteq> None"
proof -
  from assms(2) obtain c where c: "c \<in> set (weak_connections target)" "heap_slots h c = Some p"
    by (auto simp: subscribers_def set_map_filter)
  with assms(1) obtain q where q: "Observable_connections target q = Some (Some c)"
    by (auto simp: linked_def)
  with assms(1) have "heap_slots h c = Some q" by (auto simp: linked_def)
  with c q show ?thesis by simp
qed

lemma count_map_filter:
  "count_list (List.map_filter f xs) y = length (filter (\<lambda>x. f x = Some y) xs)"
  by (induction xs) (auto split: option.splits)

lemma filter_eq_distinct:
  "distinct xs \<Longrightarrow> x \<in> set xs \<Longrightarrow> filter (\<lambda>y. y = x) xs = [x]"
  by (induction xs) (auto simp: filter_empty_conv)

lemma count_distinct: "distinct xs \<Longrightarrow> x \<in> set xs \<Longrightarrow> count_list xs x = 1"
  by (induction xs) auto

lemma subscribers_once:
  assumes "linked h target" "Observable_connections target p = Some (Some c)"
  shows "count_list (subscribers target h) p = 1"
proof -
  have own: "heap_slots h c = Some p" using assms by (auto simp: linked_def)
  have mem: "c \<in> set (weak_connections target)" using assms by (auto simp: linked_def)
  have "heap_slots h x = Some p \<longleftrightarrow> x = c" if "x \<in> set (weak_connections target)" for x
  proof
    assume x: "heap_slots h x = Some p"
    from that assms(1) obtain q where q: "Observable_connections target q = Some (Some x)"
      by (auto simp: linked_def)
    with assms(1) have "heap_slots h x = Some q" by (auto simp: linked_def)
    with x have "q = p" by simp
    with q assms(2) show "x = c" by simp
  next
    assume "x = c"
    then show "heap_slots h x = Some p" using own by simp
  qed
  then have "filter (\<lambda>x. heap_slots h x = Some p) (weak_connections target)
      = filter (\<lambda>x. x = c) (weak_connections target)"
    by (intro filter_cong) auto
  also have "\<dots> = [c]"
    using assms(1) mem by (intro filter_eq_distinct) (auto simp: linked_def)
  finally show ?thesis by (simp add: subscribers_def count_map_filter)
qed

lemma absent_exec:
  assumes "store_observers st p = None" "exec c st = Some st'"
  shows "store_observers st' p = None"
proof (cases c)
  case (RegisterWith q b)
  with assms(2) have r: "registerWith q b st = Some st'" by simp
  from r obtain self target target' h' where
    "store_observers st q = Some self"
    "store_observables st b = Some target"
    "registerObserver q (target, store_heap st) = (target', h')"
    "st' = st\<lparr>store_observables := (store_observables st)(b \<mapsto> target'),
              store_heap := h',
              store_observers := (store_observers st)(q \<mapsto>
                self\<lparr>Observer_observables := set_insert b (Observer_observables self)\<rparr>)\<rparr>"
    by (rule registerWith_Some)
  with assms(1) show ?thesis by auto
next
  case (UnregisterWith q b)
  with assms(2) have r: "unregisterWith q b st = Some st'" by simp
  from r obtain self target target' h' where
    "store_observers st q = Some self"
    "store_observables st b = Some target"
    "unregisterObserver q (target, store_heap st) = (target', h')"
    "st' = st\<lparr>store_observables := (store_observables st)(b \<mapsto> target'),
              store_heap := h',
              store_observers := (store_observers st)(q \<mapsto>
                self\<lparr>Observer_observables := set_erase b (Observer_observables self)\<rparr>)\<rparr>"
    by (rule unregisterWith_Some)
  with assms(1) show ?thesis by auto
next
  case (DestroyObserver q)
  with assms(2) have r: "destroy_Observer q st = Some st'" by simp
  from r obtain self st1 where
    "store_observers st q = Some self"
    and u: "unregister_all q (Observer_observables self) st = Some st1"
    and st': "st' = st1\<lparr>store_observers := (store_observers st1)(q := None)\<rparr>"
    by (rule destroy_Observer_Some)
  from unregister_all_effect [OF u] have "store_observers st1 = store_observers st" by simp
  with assms(1) st' show ?thesis by simp
qed

lemma absent_run:
  "store_observers st p = None \<Longrightarrow> run cs st = Some st' \<Longrightarrow> store_observers st' p = None"
proof (induction cs arbitrary: st)
  case Nil
  then show ?case by simp
next
  case (Cons c cs)
  from Cons.prems(2) obtain st1 where e: "exec c st = Some st1" and r: "run cs st1 = Some st'"
    by (cases "exec c st") simp_all
  show ?case by (rule Cons.IH [OF absent_exec [OF Cons.prems(1) e] r])
qed

lemma absent_not_notified:
  assumes "mirror st" "connected st" "store_observers st p = None"
    and "notify record_call b args (st, log) = Some r"
  shows "\<exists>calls. r = (st, log @ calls) \<and> p \<notin> fst ` set calls"
proof -
  from assms(4) obtain target where t: "store_observables st b = Some target"
    by (cases "store_observables st b") (simp_all add: notify_def)
  have r: "r = (st, log @ map (\<lambda>q. (q, args)) (subscribers target (store_heap st)))"
    using assms(4) notify_connected [OF assms(2) t, of record_call args log]
    by (simp add: fold_record_call)
  have "p \<notin> set (subscribers target (store_heap st))"
  proof
    assume "p \<in> set (subscribers target (store_heap st))"
    then have "Observable_connections target p \<noteq> None"
      by (rule subscribers_registered [OF connected_linked [OF assms(2) t]])
    then have "registered st b p" using t by (simp add: registered_def)
    then have "tracks st p b" using assms(1) by (simp add: mirror_def)
    then show False using assms(3) by (simp add: tracks_def)
  qed
  then have "p \<notin> fst ` set (map (\<lambda>q. (q, args)) (subscribers target (store_heap st)))"
    by (simp add: image_image)
  with r show ?thesis by blast
qed

section \<open>The example store\<close>

lemma example_store_unsubscribed: "unsubscribed example_store"
  by (auto simp: unsubscribed_def example_store_def weak_connections_def split: if_splits)

lemma example_run:
  "\<exists>st'. run [RegisterWith 1 10, RegisterWith 2 10, UnregisterWith 2 10, DestroyObserver 1]
          example_store = Some st'"
  by (simp add: example_store_def registerWith_def unregisterWith_def destroy_Observer_def
      registerObserver_def unregisterObserver_def connect_def make_shared_def disconnect_def
      release_def weak_lock_def set_insert_def set_erase_def)

lemma example_registered:
  "\<exists>st self. registerWith 1 10 example_store = Some st \<and> store_observers st 1 = Some self"
  by (simp add: example_store_def registerWith_def registerObserver_def connect_def
      make_shared_def set_insert_def)

lemma example_store_entries:
  "store_observers example_store 1 = Some \<lparr>Observer_observables = []\<rparr>"
  "store_observables example_store 10 =
     Some \<lparr>Observable_signal = \<lparr>Signal_connections = []\<rparr>, Observable_connections = Map.empty\<rparr>"
  by (simp_all add: example_store_def)

section \<open>The claims about Date\<close>

text \<open>
  C6, as the code has it. For every year, month and day the constructor fails with the
  invalid-date error exactly when the year is not one \<open>std::chrono::year\<close> takes for valid
  (\<open>year_ok\<close>: \<open>-32767..32767\<close>, which leaves out the one value \<open>-32768\<close> of a \<open>Year\<close>) or
  (month, day) is not a real day of that year's calendar. Otherwise it returns the complete
  \<open>Date\<close> with that date, its day count and a free mutex. The result is a \<open>Date\<close> or the
  error, never both, so no partly built object escapes. \<open>Date(2023, 2, 29)\<close> fails and
  \<open>Date(2024, 2, 29)\<close> succeeds.
\<close>

theorem C6_Date_ctor_validates:
  "(Date_ctor year month day = Inl InvalidDate
      \<longleftrightarrow> \<not> (year_ok year \<and> real_calendar_date (sint year) (unat month) (unat day))) \<and>
   (year_ok year \<and> real_calendar_date (sint year) (unat month) (unat day) \<longrightarrow>
      Date_ctor year month day =
        Inr \<lparr>Date_mtx = False,
             Date_year_month_day = \<lparr>ymd_year = year, ymd_month = month, ymd_day = day\<rparr>,
             Date_serial_number = days_from_civil (sint year) (unat month) (unat day)\<rparr>) \<and>
   Date_ctor 2023 2 29 = Inl InvalidDate \<and>
   Date_ctor 2024 2 29 =
     Inr \<lparr>Date_mtx = False,
          Date_year_month_day = \<lparr>ymd_year = 2024, ymd_month = 2, ymd_day = 29\<rparr>,
          Date_serial_number = 19782\<rparr>"
proof (intro conjI impI)
  show "Date_ctor year month day = Inl InvalidDate
        \<longleftrightarrow> \<not> (year_ok year \<and> real_calendar_date (sint year) (unat month) (unat day))"
    by (simp add: Date_ctor_eq ymd_ok_iff)
  show "Date_ctor 2023 2 29 = Inl InvalidDate"
    by (simp add: Date_ctor_eq ymd_2023_2_29)
  show "Date_ctor 2024 2 29 =
       Inr \<lparr>Date_mtx = False,
            Date_year_month_day = \<lparr>ymd_year = 2024, ymd_month = 2, ymd_day = 29\<rparr>,
            Date_serial_number = 19782\<rparr>"
    by (simp add: Date_ctor_eq ymd_2024_2_29 days_from_civil_def days_before_year_def
        days_before_month_def leap_year_def)
next
  assume "year_ok year \<and> real_calendar_date (sint year) (unat month) (unat day)"
  then show "Date_ctor year month day =
          Inr \<lparr>Date_mtx = False,
               Date_year_month_day = \<lparr>ymd_year = year, ymd_month = month, ymd_day = day\<rparr>,
               Date_serial_number = days_from_civil (sint year) (unat month) (unat day)\<rparr>"
    by (simp add: Date_ctor_eq ymd_ok_iff)
qed

theorem C6_Date_ctor_validates_witness:
  "Date_ctor 1999 12 31 =
     Inr \<lparr>Date_mtx = False,
          Date_year_month_day = \<lparr>ymd_year = 1999, ymd_month = 12, ymd_day = 31\<rparr>,
          Date_serial_number = 10956\<rparr>
   \<and> Date_ctor 1999 11 31 = Inl InvalidDate
   \<and> Date_ctor (- 32768) 12 31 = Inl InvalidDate"
proof -
  have y: "year_ok 1999" "\<not> year_ok (- 32768)" by (simp_all add: year_ok_def)
  have r: "real_calendar_date (sint (1999 :: Year)) (unat (12 :: Month)) (unat (31 :: Day))"
    by (simp add: real_calendar_date_def month_length_def)
  have n: "\<not> real_calendar_date (sint (1999 :: Year)) (unat (11 :: Month)) (unat (31 :: Day))"
    by (simp add: real_calendar_date_def month_length_def)
  have d: "days_from_civil 1999 12 31 = 10956"
    by (simp add: days_from_civil_def days_before_year_def days_before_month_def leap_year_def)
  show ?thesis
    using C6_Date_ctor_validates [of 1999 12 31] C6_Date_ctor_validates [of 1999 11 31]
      C6_Date_ctor_validates [of "- 32768" 12 31] y r n d
    by simp
qed

text \<open>
  That the constructor fails only for a triple that is not a real calendar date does not
  hold at the year \<open>-32768\<close>: the first of January of that year is a day of the calendar,
  and the constructor throws.
\<close>

theorem C6_year_min_counterexample:
  "Date_ctor (- 32768) 1 1 = Inl InvalidDate
   \<and> sint (- 32768 :: Year) = - 32768
   \<and> real_calendar_date (sint (- 32768 :: Year)) (unat (1 :: Month)) (unat (1 :: Day))"
  by (simp add: Date_ctor_bad_year year_ok_def real_calendar_date_def month_length_def)

text \<open>
  C7. \<open>Date(2023,1,31) + Months(1)\<close> does not return \<open>Date(2023,2,28)\<close>: \<open>operator+\<close> for
  \<open>Months\<close> holds the \<open>lock_guard\<close> on the mutex of \<open>*this\<close> while the copy constructor
  locks the same mutex again, so the call ends in \<open>RelockOwnedMutex\<close> and returns no date.
  The compound assignment \<open>+= Months(1)\<close> on the same date does give 2023-02-28, the value
  the constructor builds for \<open>Date(2023,2,28)\<close>; the same holds for 2024-01-31 and
  2024-02-29.
\<close>

theorem C7_plus_Months_relocks:
  "Date_ctor 2023 1 31 =
     Inr \<lparr>Date_mtx = False,
          Date_year_month_day = \<lparr>ymd_year = 2023, ymd_month = 1, ymd_day = 31\<rparr>,
          Date_serial_number = 19388\<rparr>
   \<and> Date_plus_Months
       \<lparr>Date_mtx = False,
        Date_year_month_day = \<lparr>ymd_year = 2023, ymd_month = 1, ymd_day = 31\<rparr>,
        Date_serial_number = 19388\<rparr> 1 = Inl RelockOwnedMutex
   \<and> Date_plus_assign_Months
       \<lparr>Date_mtx = False,
        Date_year_month_day = \<lparr>ymd_year = 2023, ymd_month = 1, ymd_day = 31\<rparr>,
        Date_serial_number = 19388\<rparr> 1 =
     Inr \<lparr>Date_mtx = False,
          Date_year_month_day = \<lparr>ymd_year = 2023, ymd_month = 2, ymd_day = 28\<rparr>,
          Date_serial_number = 19416\<rparr>
   \<and> Date_ctor 2023 2 28 =
     Inr \<lparr>Date_mtx = False,
          Date_year_month_day = \<lparr>ymd_year = 2023, ymd_month = 2, ymd_day = 28\<rparr>,
          Date_serial_number = 19416\<rparr>
   \<and> Date_ctor 2024 1 31 =
     Inr \<lparr>Date_mtx = False,
          Date_year_month_day = \<lparr>ymd_year = 2024, ymd_month = 1, ymd_day = 31\<rparr>,
          Date_serial_number = 19753\<rparr>
   \<and> Date_plus_Months
       \<lparr>Date_mtx = False,
        Date_year_month_day = \<lparr>ymd_year = 2024, ymd_month = 1, ymd_day = 31\<rparr>,
        Date_serial_number = 19753\<rparr> 1 = Inl RelockOwnedMutex
   \<and> Date_plus_assign_Months
       \<lparr>Date_mtx = False,
        Date_year_month_day = \<lparr>ymd_year = 2024, ymd_month = 1, ymd_day = 31\<rparr>,
        Date_serial_number = 19753\<rparr> 1 =
     Inr \<lparr>Date_mtx = False,
          Date_year_month_day = \<lparr>ymd_year = 2024, ymd_month = 2, ymd_day = 29\<rparr>,
          Date_serial_number = 19782\<rparr>
   \<and> Date_ctor 2024 2 29 =
     Inr \<lparr>Date_mtx = False,
          Date_year_month_day = \<lparr>ymd_year = 2024, ymd_month = 2, ymd_day = 29\<rparr>,
          Date_serial_number = 19782\<rparr>"
proof -
  have c1: "Date_ctor 2023 1 31 =
     Inr \<lparr>Date_mtx = False,
          Date_year_month_day = \<lparr>ymd_year = 2023, ymd_month = 1, ymd_day = 31\<rparr>,
          Date_serial_number = 19388\<rparr>"
    by (simp add: Date_ctor_eq ymd_2023_1_31 civil_eval)
  have c2: "Date_ctor 2023 2 28 =
     Inr \<lparr>Date_mtx = False,
          Date_year_month_day = \<lparr>ymd_year = 2023, ymd_month = 2, ymd_day = 28\<rparr>,
          Date_serial_number = 19416\<rparr>"
    by (simp add: Date_ctor_eq ymd_2023_2_28 civil_eval)
  have c3: "Date_ctor 2024 1 31 =
     Inr \<lparr>Date_mtx = False,
          Date_year_month_day = \<lparr>ymd_year = 2024, ymd_month = 1, ymd_day = 31\<rparr>,
          Date_serial_number = 19753\<rparr>"
    by (simp add: Date_ctor_eq ymd_2024_1_31 civil_eval)
  have c4: "Date_ctor 2024 2 29 =
     Inr \<lparr>Date_mtx = False,
          Date_year_month_day = \<lparr>ymd_year = 2024, ymd_month = 2, ymd_day = 29\<rparr>,
          Date_serial_number = 19782\<rparr>"
    by (simp add: Date_ctor_eq ymd_2024_2_29 civil_eval)
  have p1: "Date_plus_Months
       \<lparr>Date_mtx = False,
        Date_year_month_day = \<lparr>ymd_year = 2023, ymd_month = 1, ymd_day = 31\<rparr>,
        Date_serial_number = 19388\<rparr> 1 = Inl RelockOwnedMutex"
    by (simp add: Date_plus_Months_def lock_def Date_copy_def Date_assign_def)
  have p2: "Date_plus_Months
       \<lparr>Date_mtx = False,
        Date_year_month_day = \<lparr>ymd_year = 2024, ymd_month = 1, ymd_day = 31\<rparr>,
        Date_serial_number = 19753\<rparr> 1 = Inl RelockOwnedMutex"
    by (simp add: Date_plus_Months_def lock_def Date_copy_def Date_assign_def)
  have a1: "Date_plus_assign_Months
       \<lparr>Date_mtx = False,
        Date_year_month_day = \<lparr>ymd_year = 2023, ymd_month = 1, ymd_day = 31\<rparr>,
        Date_serial_number = 19388\<rparr> 1 =
     Inr \<lparr>Date_mtx = False,
          Date_year_month_day = \<lparr>ymd_year = 2023, ymd_month = 2, ymd_day = 28\<rparr>,
          Date_serial_number = 19416\<rparr>"
    by (simp add: Date_plus_assign_Months_def lock_def plus_one_month_2023 adjust_day_def
        ymd_2023_2_31 lastDayOfMonth_def is_leap_def resetSerial_def sys_days_def civil_eval)
  have a2: "Date_plus_assign_Months
       \<lparr>Date_mtx = False,
        Date_year_month_day = \<lparr>ymd_year = 2024, ymd_month = 1, ymd_day = 31\<rparr>,
        Date_serial_number = 19753\<rparr> 1 =
     Inr \<lparr>Date_mtx = False,
          Date_year_month_day = \<lparr>ymd_year = 2024, ymd_month = 2, ymd_day = 29\<rparr>,
          Date_serial_number = 19782\<rparr>"
    by (simp add: Date_plus_assign_Months_def lock_def plus_one_month_2024 adjust_day_def
        ymd_2024_2_31 lastDayOfMonth_def is_leap_def resetSerial_def sys_days_def civil_eval)
  show ?thesis
    by (intro conjI) (rule c1 p1 a1 c2 c3 p2 a2 c4)+
qed

text \<open>
  C8. For the two dates the constructor returns for two triples, the serial numbers are the
  day counts of the triples, and each of the five comparison operators returns the
  comparison of the two serial numbers; \<open>==\<close> holds exactly when year, month and day agree
  (so two dates constructed from the same triple compare equal), \<open><\<close> and \<open>>\<close> exactly when
  the triples are in calendar order, \<open><=\<close> and \<open>>=\<close> are their unions with equality, and one
  of \<open><\<close>, \<open>==\<close>, \<open>>\<close> always holds.
\<close>

theorem C8_comparison_by_serial:
  assumes "Date_ctor y1 m1 d1 = Inr a" "Date_ctor y2 m2 d2 = Inr b"
  shows
    "Date_serial_number a = days_from_civil (sint y1) (unat m1) (unat d1) \<and>
     Date_serial_number b = days_from_civil (sint y2) (unat m2) (unat d2) \<and>
     Date_eq a b = Inr (Date_serial_number a = Date_serial_number b) \<and>
     Date_less a b = Inr (Date_serial_number a < Date_serial_number b) \<and>
     Date_greater a b = Inr (Date_serial_number a > Date_serial_number b) \<and>
     Date_less_eq a b = Inr (Date_serial_number a \<le> Date_serial_number b) \<and>
     Date_greater_eq a b = Inr (Date_serial_number a \<ge> Date_serial_number b) \<and>
     (Date_eq a b = Inr True \<longleftrightarrow> y1 = y2 \<and> m1 = m2 \<and> d1 = d2) \<and>
     (Date_less a b = Inr True
        \<longleftrightarrow> calendar_less (sint y1, unat m1, unat d1) (sint y2, unat m2, unat d2)) \<and>
     (Date_greater a b = Inr True
        \<longleftrightarrow> calendar_less (sint y2, unat m2, unat d2) (sint y1, unat m1, unat d1)) \<and>
     (Date_less_eq a b = Inr True
        \<longleftrightarrow> calendar_less (sint y1, unat m1, unat d1) (sint y2, unat m2, unat d2)
            \<or> (y1 = y2 \<and> m1 = m2 \<and> d1 = d2)) \<and>
     (Date_greater_eq a b = Inr True
        \<longleftrightarrow> calendar_less (sint y2, unat m2, unat d2) (sint y1, unat m1, unat d1)
            \<or> (y1 = y2 \<and> m1 = m2 \<and> d1 = d2)) \<and>
     (Date_less a b = Inr True \<or> Date_eq a b = Inr True \<or> Date_greater a b = Inr True)"
proof -
  have ca: "Date_consistent a" and cb: "Date_consistent b"
    using assms by (auto dest: Date_ctor_consistent)
  have va: "civil a = (sint y1, unat m1, unat d1)" and vb: "civil b = (sint y2, unat m2, unat d2)"
    using assms by (auto dest: Date_ctor_civil)
  have sa: "Date_serial_number a = days_from_civil (sint y1) (unat m1) (unat d1)"
    using Date_consistent_serial [OF ca] by (simp add: va)
  have sb: "Date_serial_number b = days_from_civil (sint y2) (unat m2) (unat d2)"
    using Date_consistent_serial [OF cb] by (simp add: vb)
  have "sint y1 = sint y2 \<longleftrightarrow> y1 = y2" by (auto intro: signed_word_eqI)
  moreover have "unat m1 = unat m2 \<longleftrightarrow> m1 = m2" by (auto intro: unsigned_word_eqI)
  moreover have "unat d1 = unat d2 \<longleftrightarrow> d1 = d2" by (auto intro: unsigned_word_eqI)
  ultimately have inj: "civil a = civil b \<longleftrightarrow> y1 = y2 \<and> m1 = m2 \<and> d1 = d2"
    unfolding va vb by (simp only: prod.inject)
  note c = comparison_on_consistent [OF ca cb, unfolded inj, unfolded va vb]
  show ?thesis
    by (rule conjI [OF sa conjI [OF sb c]])
qed

theorem C8_comparison_by_serial_witness:
  "Date_ctor 2023 1 31 =
     Inr \<lparr>Date_mtx = False,
          Date_year_month_day = \<lparr>ymd_year = 2023, ymd_month = 1, ymd_day = 31\<rparr>,
          Date_serial_number = 19388\<rparr>
   \<and> Date_ctor 2024 2 29 =
     Inr \<lparr>Date_mtx = False,
          Date_year_month_day = \<lparr>ymd_year = 2024, ymd_month = 2, ymd_day = 29\<rparr>,
          Date_serial_number = 19782\<rparr>
   \<and> Date_less
     \<lparr>Date_mtx = False,
      Date_year_month_day = \<lparr>ymd_year = 2023, ymd_month = 1, ymd_day = 31\<rparr>,
      Date_serial_number = 19388\<rparr>
     \<lparr>Date_mtx = False,
      Date_year_month_day = \<lparr>ymd_year = 2024, ymd_month = 2, ymd_day = 29\<rparr>,
      Date_serial_number = 19782\<rparr> = Inr True
   \<and> Date_eq
     \<lparr>Date_mtx = False,
      Date_year_month_day = \<lparr>ymd_year = 2023, ymd_month = 1, ymd_day = 31\<rparr>,
      Date_serial_number = 19388\<rparr>
     \<lparr>Date_mtx = False,
      Date_year_month_day = \<lparr>ymd_year = 2024, ymd_month = 2, ymd_day = 29\<rparr>,
      Date_serial_number = 19782\<rparr> = Inr False
   \<and> Date_eq
     \<lparr>Date_mtx = False,
      Date_year_month_day = \<lparr>ymd_year = 2023, ymd_month = 1, ymd_day = 31\<rparr>,
      Date_serial_number = 19388\<rparr>
     \<lparr>Date_mtx = False,
      Date_year_month_day = \<lparr>ymd_year = 2023, ymd_month = 1, ymd_day = 31\<rparr>,
      Date_serial_number = 19388\<rparr> = Inr True
   \<and> calendar_less (2023, 1, 31) (2024, 2, 29)"
  using C8_comparison_by_serial [OF Date_ctor_2023_1_31 Date_ctor_2024_2_29]
    C8_comparison_by_serial [OF Date_ctor_2023_1_31 Date_ctor_2023_1_31]
    Date_ctor_2023_1_31 Date_ctor_2024_2_29
  by (simp add: calendar_less_def)

text \<open>
  C10. The default constructor returns the date 1900-01-01 with a free mutex, and its serial
  number is the day count of 1900-01-01 from the epoch 1970-01-01, which is \<open>-25567\<close>.
\<close>

theorem C10_default_date:
  "Date_default = Inr \<lparr>Date_mtx = False,
                       Date_year_month_day = \<lparr>ymd_year = 1900, ymd_month = 1, ymd_day = 1\<rparr>,
                       Date_serial_number = days_from_civil 1900 1 1\<rparr>
   \<and> days_from_civil 1900 1 1 = - 25567
   \<and> days_from_civil 1970 1 1 = 0"
  by (simp add: Date_default_def lock_def fresh_Date_def resetSerial_def sys_days_def
      days_from_civil_def days_before_year_def days_before_month_def leap_year_def)

section \<open>The claims about Signal, Observable, Observer and ObservableValue\<close>

text \<open>
  C1. \<open>set(v)\<close> stores \<open>v\<close> when \<open>v != value_\<close> holds and keeps the stored value otherwise;
  in both cases it then notifies: each observer whose slot can be resolved is called once,
  in the order of the signal, with the value now stored. With observers that record their
  calls, the log grows by one entry for each of them whether or not the value changed.
\<close>

theorem C1_set_value:
  "ObservableValue_value (fst (set_value ne onNotify v (this, h, u))) =
     (if ne v (ObservableValue_value this) then v else ObservableValue_value this)
   \<and> snd (set_value ne onNotify v (this, h, u)) =
       fold (\<lambda>p. onNotify p (if ne v (ObservableValue_value this) then v
                                else ObservableValue_value this))
         (subscribers this h) u
   \<and> snd (set_value ne record_call v (this, g, log)) =
       log @ map (\<lambda>p. (p, if ne v (ObservableValue_value this) then v
                            else ObservableValue_value this))
               (subscribers this g)"
  by (simp add: set_value_def notifyObservers_eq subscribers_def weak_connections_def
      fold_record_call)

theorem C1_set_value_witness:
  "ObservableValue_value (fst (set_value (\<lambda>a b. a \<noteq> b) record_call (5::int)
     (\<lparr>Observable_signal = \<lparr>Signal_connections = [0]\<rparr>,
       Observable_connections = [7 \<mapsto> Some 0],
       ObservableValue_value = 5\<rparr>,
      \<lparr>heap_slots = [0 \<mapsto> 7], heap_next = 1\<rparr>, []))) = 5
   \<and> snd (set_value (\<lambda>a b. a \<noteq> b) record_call (5::int)
     (\<lparr>Observable_signal = \<lparr>Signal_connections = [0]\<rparr>,
       Observable_connections = [7 \<mapsto> Some 0],
       ObservableValue_value = 5\<rparr>,
      \<lparr>heap_slots = [0 \<mapsto> 7], heap_next = 1\<rparr>, [])) = [(7, 5)]
   \<and> snd (set_value (\<lambda>a b. a \<noteq> b) record_call (6::int)
     (\<lparr>Observable_signal = \<lparr>Signal_connections = [0]\<rparr>,
       Observable_connections = [7 \<mapsto> Some 0],
       ObservableValue_value = 5\<rparr>,
      \<lparr>heap_slots = [0 \<mapsto> 7], heap_next = 1\<rparr>, [])) = [(7, 6)]"
  using C1_set_value [of "\<lambda>a b. a \<noteq> b" record_call "5::int"
      "\<lparr>Observable_signal = \<lparr>Signal_connections = [0]\<rparr>,
        Observable_connections = [7 \<mapsto> Some 0], ObservableValue_value = 5\<rparr>"
      "\<lparr>heap_slots = [0 \<mapsto> 7], heap_next = 1\<rparr>" "[]"
      "\<lparr>heap_slots = [0 \<mapsto> 7], heap_next = 1\<rparr>" "[]"]
    C1_set_value [of "\<lambda>a b. a \<noteq> b" record_call "6::int"
      "\<lparr>Observable_signal = \<lparr>Signal_connections = [0]\<rparr>,
        Observable_connections = [7 \<mapsto> Some 0], ObservableValue_value = 5\<rparr>"
      "\<lparr>heap_slots = [0 \<mapsto> 7], heap_next = 1\<rparr>" "[]"
      "\<lparr>heap_slots = [0 \<mapsto> 7], heap_next = 1\<rparr>" "[]"]
  by (simp add: subscribers_def weak_connections_def record_call_def)




text \<open>
  C3. In a connected store, for an observer and an observable that exist: \<open>registerWith\<close>
  succeeds, and a second \<open>registerWith\<close> right after it succeeds and leaves the store as it
  is. Then the registry has the one entry of the observer, its connection is in the signal
  exactly once, its slot captures the observer, the observer is among the subscribers
  exactly once, and \<open>notifyObservers(args)\<close> with recording observers appends one call for
  each subscriber, so exactly one for this observer.
\<close>

theorem C3_register_twice:
  assumes "connected st" "store_observers st observer = Some self"
    and "store_observables st observable = Some target"
  shows "\<exists>st1 target1 c.
           registerWith observer observable st = Some st1 \<and>
           registerWith observer observable st1 = Some st1 \<and>
           store_observables st1 observable = Some target1 \<and>
           Observable_connections target1 observer = Some (Some c) \<and>
           count_list (weak_connections target1) c = 1 \<and>
           heap_slots (store_heap st1) c = Some observer \<and>
           count_list (subscribers target1 (store_heap st1)) observer = 1 \<and>
           (\<forall>args log. notify record_call observable args (st1, log) =
                Some (st1, log @ map (\<lambda>p. (p, args)) (subscribers target1 (store_heap st1))))"
proof -
  obtain st1 where r1: "registerWith observer observable st = Some st1"
    using registerWith_succeeds [OF assms(2,3)] by blast
  have c1: "connected st1" by (rule connected_registerWith [OF assms(1) r1])
  have "registered st1 observable observer"
    by (simp add: registered_registerWith [OF r1])
  then obtain target1 where t1: "store_observables st1 observable = Some target1"
    and e1: "Observable_connections target1 observer \<noteq> None"
    by (auto simp: registered_def)
  have l1: "linked (store_heap st1) target1" by (rule connected_linked [OF c1 t1])
  have "Observable_connections target1 observer \<noteq> Some None"
    using l1 by (simp add: linked_def)
  with e1 obtain c where c: "Observable_connections target1 observer = Some (Some c)"
    by (cases "Observable_connections target1 observer") auto
  have "tracks st1 observer observable" by (simp add: tracks_registerWith [OF r1])
  then obtain self1 where s1: "store_observers st1 observer = Some self1"
    and m1: "observable \<in> set (Observer_observables self1)"
    by (auto simp: tracks_def)
  have same: "registerObserver observer (target1, store_heap st1) = (target1, store_heap st1)"
    using e1 by (rule registerObserver_present)
  have "st1\<lparr>store_observables := (store_observables st1)(observable \<mapsto> target1),
             store_heap := store_heap st1,
             store_observers := (store_observers st1)(observer \<mapsto>
               self1\<lparr>Observer_observables := set_insert observable (Observer_observables self1)\<rparr>)\<rparr>
        = st1"
    using t1 s1 m1 by (simp add: set_insert_def map_upd_triv)
  then have r2: "registerWith observer observable st1 = Some st1"
    using t1 s1 same by (simp add: registerWith_def)
  have mem: "c \<in> set (weak_connections target1)" using l1 c by (auto simp: linked_def)
  have d: "distinct (weak_connections target1)" using l1 by (simp add: linked_def)
  have "count_list (weak_connections target1) c = 1" by (rule count_distinct [OF d mem])
  moreover have "heap_slots (store_heap st1) c = Some observer"
    using l1 c by (auto simp: linked_def)
  moreover have "count_list (subscribers target1 (store_heap st1)) observer = 1"
    by (rule subscribers_once [OF l1 c])
  moreover have "notify record_call observable args (st1, log) =
      Some (st1, log @ map (\<lambda>p. (p, args)) (subscribers target1 (store_heap st1)))" for args log
    by (simp add: notify_connected [OF c1 t1] fold_record_call)
  ultimately show ?thesis using r1 r2 t1 c by blast
qed

theorem C3_register_twice_witness:
  "\<exists>st1 target1 c.
     registerWith 1 10 example_store = Some st1 \<and>
     registerWith 1 10 st1 = Some st1 \<and>
     store_observables st1 10 = Some target1 \<and>
     Observable_connections target1 1 = Some (Some c) \<and>
     count_list (weak_connections target1) c = 1 \<and>
     heap_slots (store_heap st1) c = Some 1 \<and>
     count_list (subscribers target1 (store_heap st1)) 1 = 1 \<and>
     (\<forall>args log. notify record_call 10 (args :: int) (st1, log) =
          Some (st1, log @ map (\<lambda>p. (p, args)) (subscribers target1 (store_heap st1))))"
  by (rule C3_register_twice [OF unsubscribed_connected [OF example_store_unsubscribed]
        example_store_entries])

text \<open>
  C4. In a mirrored and connected store the destructor of an existing observer succeeds:
  it unregisters the observer from every observable of its set, after which the observer is
  gone from the store, no observable has a registry entry for it (the entries of the other
  observers are as before), and it is not among the subscribers of any observable. After
  any further calls that succeed, no \<open>notifyObservers\<close> on any observable calls it.
\<close>

theorem C4_destroyed_observer:
  assumes "mirror st" "connected st" "store_observers st observer = Some self"
  shows "\<exists>st'. destroy_Observer observer st = Some st' \<and>
           store_observers st' = (store_observers st)(observer := None) \<and>
           (\<forall>b. \<not> registered st' b observer) \<and>
           (\<forall>b p. p \<noteq> observer \<longrightarrow> registered st' b p = registered st b p) \<and>
           (\<forall>b target. store_observables st' b = Some target \<longrightarrow>
                observer \<notin> set (subscribers target (store_heap st'))) \<and>
           (\<forall>cs st'' b args log r.
                run cs st' = Some st'' \<and> notify record_call b args (st'', log) = Some r \<longrightarrow>
                (\<exists>calls. r = (st'', log @ calls) \<and> observer \<notin> fst ` set calls))"
proof -
  obtain st' where d: "destroy_Observer observer st = Some st'"
    using destroy_Observer_succeeds [OF assms(1,3)] by blast
  have m': "mirror st'" by (rule mirror_destroy_Observer [OF assms(1) d])
  have c': "connected st'" by (rule connected_destroy_Observer [OF assms(2) d])
  have o': "store_observers st' = (store_observers st)(observer := None)"
    by (rule destroy_Observer_effect(1) [OF assms(1) d])
  have g: "registered st' b p \<longleftrightarrow> p \<noteq> observer \<and> registered st b p" for b p
    by (rule destroy_Observer_effect(2) [OF assms(1) d])
  have sub: "observer \<notin> set (subscribers target (store_heap st'))"
    if "store_observables st' b = Some target" for b target
  proof
    assume "observer \<in> set (subscribers target (store_heap st'))"
    then have "Observable_connections target observer \<noteq> None"
      by (rule subscribers_registered [OF connected_linked [OF c' that]])
    then have "registered st' b observer" using that by (simp add: registered_def)
    then show False using g by simp
  qed
  have later: "\<exists>calls. r = (st'', log @ calls) \<and> observer \<notin> fst ` set calls"
    if "run cs st' = Some st'' \<and> notify record_call b args (st'', log) = Some r"
    for cs st'' b args and log :: "(ObserverPtr \<times> 'b) list" and r
  proof -
    from that have r: "run cs st' = Some st''"
      and n: "notify record_call b args (st'', log) = Some r" by simp_all
    have "store_observers st' observer = None" by (simp add: o')
    then have a: "store_observers st'' observer = None" using r by (rule absent_run)
    show ?thesis
      by (rule absent_not_notified [OF mirror_run [OF m' r] connected_run [OF c' r] a n])
  qed
  show ?thesis
    using d o' g sub later by blast
qed

theorem C4_destroyed_observer_witness:
  "\<exists>st self st'.
     registerWith 1 10 example_store = Some st \<and> store_observers st 1 = Some self \<and>
     destroy_Observer 1 st = Some st' \<and>
     store_observers st' = (store_observers st)(1 := None) \<and>
     (\<forall>b. \<not> registered st' b 1) \<and>
     (\<forall>cs st'' b args log r.
         run cs st' = Some st'' \<and> notify record_call b (args :: int) (st'', log) = Some r \<longrightarrow>
         (\<exists>calls. r = (st'', log @ calls) \<and> 1 \<notin> fst ` set calls))"
proof -
  obtain st self where r: "registerWith 1 10 example_store = Some st"
    and s: "store_observers st 1 = Some self"
    using example_registered by blast
  have m: "mirror st"
    by (rule mirror_registerWith [OF unsubscribed_mirror [OF example_store_unsubscribed] r])
  have c: "connected st"
    by (rule connected_registerWith [OF unsubscribed_connected [OF example_store_unsubscribed] r])
  from C4_destroyed_observer [OF m c s, where 'b = int] r s show ?thesis by blast
qed

text \<open>
  C5. \<open>unregisterObserver\<close> of an observer without a registry entry and
  \<open>registerObserver\<close> of one that has an entry return the observable and the heap as they
  were; \<open>disconnect\<close> with the connection of a block that the signal has no weak pointer to
  (for one, a connection made by another signal) returns the signal as it was;
  \<open>unregisterWith\<close> and \<open>registerWith\<close> in these cases succeed and leave every observable and
  the heap as they were. The functions are total and have no error result. A connection is
  what a \<open>connect\<close> has returned, so it is not empty; what \<open>disconnect\<close> does with the empty
  shared pointer is \<open>disconnect_empty\<close> above.
\<close>

theorem C5_silent_no_ops:
  "(Observable_connections target observer = None \<longrightarrow>
      unregisterObserver observer (target, h) = (target, h)) \<and>
   (Observable_connections target observer \<noteq> None \<longrightarrow>
      registerObserver observer (target, h) = (target, h)) \<and>
   (c \<notin> set (Signal_connections signal) \<longrightarrow> disconnect (Some c) (signal, h) = signal) \<and>
   (store_observers st observer = Some self \<and> store_observables st observable = Some target \<and>
    Observable_connections target observer = None \<longrightarrow>
      (\<exists>st'. unregisterWith observer observable st = Some st' \<and>
         store_observables st' = store_observables st \<and> store_heap st' = store_heap st)) \<and>
   (store_observers st observer = Some self \<and> store_observables st observable = Some target \<and>
    Observable_connections target observer \<noteq> None \<longrightarrow>
      (\<exists>st'. registerWith observer observable st = Some st' \<and>
         store_observables st' = store_observables st \<and> store_heap st' = store_heap st))"
  by (auto simp: unregisterObserver_absent registerObserver_present disconnect_absent
      unregisterWith_def registerWith_def map_upd_triv)

theorem C5_silent_no_ops_witness:
  "unregisterObserver 2
     (\<lparr>Observable_signal = \<lparr>Signal_connections = [0]\<rparr>, Observable_connections = [1 \<mapsto> Some 0]\<rparr>,
      \<lparr>heap_slots = [0 \<mapsto> 1, 5 \<mapsto> 2], heap_next = 6\<rparr>)
   = (\<lparr>Observable_signal = \<lparr>Signal_connections = [0]\<rparr>, Observable_connections = [1 \<mapsto> Some 0]\<rparr>,
      \<lparr>heap_slots = [0 \<mapsto> 1, 5 \<mapsto> 2], heap_next = 6\<rparr>)
   \<and> registerObserver 1
     (\<lparr>Observable_signal = \<lparr>Signal_connections = [0]\<rparr>, Observable_connections = [1 \<mapsto> Some 0]\<rparr>,
      \<lparr>heap_slots = [0 \<mapsto> 1, 5 \<mapsto> 2], heap_next = 6\<rparr>)
   = (\<lparr>Observable_signal = \<lparr>Signal_connections = [0]\<rparr>, Observable_connections = [1 \<mapsto> Some 0]\<rparr>,
      \<lparr>heap_slots = [0 \<mapsto> 1, 5 \<mapsto> 2], heap_next = 6\<rparr>)
   \<and> disconnect (Some 5) (\<lparr>Signal_connections = [0]\<rparr>,
        \<lparr>heap_slots = [0 \<mapsto> (1::nat), 5 \<mapsto> 2], heap_next = 6\<rparr>)
     = \<lparr>Signal_connections = [0]\<rparr>"
  using C5_silent_no_ops [of
      "\<lparr>Observable_signal = \<lparr>Signal_connections = [0]\<rparr>, Observable_connections = [1 \<mapsto> Some 0]\<rparr>"
      2 "\<lparr>heap_slots = [0 \<mapsto> 1, 5 \<mapsto> 2], heap_next = 6\<rparr>" 5 "\<lparr>Signal_connections = [0]\<rparr>"
      example_store "\<lparr>Observer_observables = []\<rparr>" 10]
    C5_silent_no_ops [of
      "\<lparr>Observable_signal = \<lparr>Signal_connections = [0]\<rparr>, Observable_connections = [1 \<mapsto> Some 0]\<rparr>"
      1 "\<lparr>heap_slots = [0 \<mapsto> 1, 5 \<mapsto> 2], heap_next = 6\<rparr>" 5 "\<lparr>Signal_connections = [0]\<rparr>"
      example_store "\<lparr>Observer_observables = []\<rparr>" 10]
  by simp

text \<open>
  C9. From a store in which nothing is registered, or any store that is mirrored, every
  sequence of \<open>registerWith\<close>, \<open>unregisterWith\<close> and observer destructions that succeeds
  ends in a mirrored store: an observable is in the set of an observer exactly when its
  registry has an entry for that observer.
\<close>

theorem C9_mirror_invariant:
  assumes "unsubscribed st \<or> mirror st" "run calls st = Some st'"
  shows "mirror st' \<and>
         (\<forall>observer observable.
            (\<exists>self. store_observers st' observer = Some self \<and>
                    observable \<in> set (Observer_observables self))
            \<longleftrightarrow> (\<exists>target. store_observables st' observable = Some target \<and>
                    Observable_connections target observer \<noteq> None))"
proof -
  have "mirror st" using assms(1) unsubscribed_mirror by blast
  then have "mirror st'" using assms(2) by (rule mirror_run)
  then show ?thesis by (simp add: mirror_def [of st'] tracks_def registered_def)
qed

theorem C9_mirror_invariant_witness:
  "\<exists>st'. run [RegisterWith 1 10, RegisterWith 2 10, UnregisterWith 2 10, DestroyObserver 1]
          example_store = Some st' \<and> mirror st'"
proof -
  obtain st' where r: "run [RegisterWith 1 10, RegisterWith 2 10, UnregisterWith 2 10,
      DestroyObserver 1] example_store = Some st'"
    using example_run by blast
  have "unsubscribed example_store \<or> mirror example_store"
    using example_store_unsubscribed by simp
  from C9_mirror_invariant [OF this r] r show ?thesis by blast
qed

end
